theory Spec2Isabelle
  imports Complex_Main "HOL-Library.Word"
begin

section \<open>Data model of \<^verbatim>\<open>src/mcts/node.h\<close>\<close>

text \<open>
  Machine integers are words of the declared width.  The \<^verbatim>\<open>float\<close> and
  \<^verbatim>\<open>double\<close> members of the two node classes are stored and copied by the functions
  embedded here; the one operation on them, the square \<^verbatim>\<open>wl_ * wl_\<close> of a \<^verbatim>\<open>float\<close>
  value in \<^verbatim>\<open>SetNNEval\<close>, is exact in \<^verbatim>\<open>double\<close>.  So they are carried as real numbers.
  A \<^verbatim>\<open>Node*\<close> is an address into a store of nodes; \<^verbatim>\<open>nullptr\<close> is \<open>None\<close>.
\<close>

type_synonym float32 = real

type_synonym float64 = real

type_synonym addr = nat

text \<open>\<^verbatim>\<open>Move\<close> (declared in chess/board.h) is a 16-bit move encoding; only its
  values are copied here.\<close>

type_synonym Move = "16 word"

text \<open>\<^verbatim>\<open>enum class GameResult : uint8_t\<close> of chess/position.h, in its order.\<close>

datatype GameResult = UNDECIDED | BLACK_WON | DRAW | WHITE_WON

datatype Terminal = NonTerminal | EndOfGame | Tablebase

datatype error = AssertionFailed | OutOfBounds

text \<open>\<^verbatim>\<open>class Edge\<close>: a move and its prior compressed to 16 bits.\<close>

record Edge =
  move_' :: Move
  p_' :: "16 word"

text \<open>\<^verbatim>\<open>struct NNEval\<close>.  A \<^verbatim>\<open>std::unique_ptr<Edge[]>\<close> is \<open>None\<close> when it
  manages no array and \<open>Some es\<close> when it owns the array \<open>es\<close>; an array of length
  zero is still an allocated array, so \<open>Some []\<close> is not the null pointer.\<close>

record NNEval =
  nn_edges :: "Edge list option"
  nn_q :: float32
  nn_d :: float32
  nn_e :: float32
  nn_m :: float32
  nn_num_edges :: "8 word"

text \<open>
  \<^verbatim>\<open>class Node\<close> and \<^verbatim>\<open>class LowNode\<close> declare nine members of the same name and type
  (\<^verbatim>\<open>wl_\<close>, \<^verbatim>\<open>vs_\<close>, \<^verbatim>\<open>weight_\<close>, \<^verbatim>\<open>d_\<close>, \<^verbatim>\<open>m_\<close>, \<^verbatim>\<open>n_\<close>, \<^verbatim>\<open>terminal_type_\<close>,
  \<^verbatim>\<open>lower_bound_\<close>, \<^verbatim>\<open>upper_bound_\<close>).  They are declared once, in a record both
  extend, so that every member keeps its name.  The node's own copy of its edge
  (\<^verbatim>\<open>Node::edge_\<close>) is \<open>own_edge_'\<close>: \<open>edge_'\<close> is the edge pointer of \<^verbatim>\<open>EdgeAndNode\<close>.
  A member \<^verbatim>\<open>x_\<close> is the field \<open>x_'\<close> (a name cannot end in an underscore here); the
  members of \<^verbatim>\<open>NNEval\<close> are \<open>nn_edges\<close>, \<open>nn_q\<close>, ... .
\<close>

record Stats =
  wl_' :: float64
  vs_' :: float64
  weight_' :: float64
  d_' :: float64
  m_' :: float32
  n_' :: "32 word"
  terminal_type_' :: Terminal
  lower_bound_' :: GameResult
  upper_bound_' :: GameResult

record Node = Stats +
  low_node_' :: "addr option"
  sibling_' :: "addr option"
  n_in_flight_' :: "32 word"
  own_edge_' :: Edge
  index_' :: "16 word"
  repetition_' :: bool

record LowNode = Stats +
  hash_' :: "64 word"
  edges_' :: "Edge list option"
  child_' :: "addr option"
  v_' :: float32
  e_' :: float32
  num_parents_' :: "16 word"
  num_edges_' :: "8 word"
  is_transposition :: bool
  is_tt_' :: bool

subsection \<open>Constructors\<close>

text \<open>\<^verbatim>\<open>Node(const Edge& edge, uint16_t index)\<close>, with the default member
  initialisers of the class.\<close>

definition Node_ctor :: "Edge \<Rightarrow> 16 word \<Rightarrow> Node" where
  "Node_ctor edge index =
     \<lparr>wl_' = 0, vs_' = 0, weight_' = 0, d_' = 0, m_' = 0, n_' = 0,
      terminal_type_' = NonTerminal, lower_bound_' = BLACK_WON, upper_bound_' = WHITE_WON,
      low_node_' = None, sibling_' = None, n_in_flight_' = 0,
      own_edge_' = edge, index_' = index, repetition_' = False\<rparr>"

text \<open>\<^verbatim>\<open>LowNode(uint64_t hash)\<close>, "for TT nodes".\<close>

definition LowNode_hash :: "64 word \<Rightarrow> LowNode" where
  "LowNode_hash hash =
     \<lparr>wl_' = 0, vs_' = 0, weight_' = 0, d_' = 0, m_' = 0, n_' = 0,
      terminal_type_' = NonTerminal, lower_bound_' = BLACK_WON, upper_bound_' = WHITE_WON,
      hash_' = hash, edges_' = None, child_' = None, v_' = 0, e_' = 0,
      num_parents_' = 0, num_edges_' = 0, is_transposition = False, is_tt_' = True\<rparr>"

text \<open>\<^verbatim>\<open>std::memcpy(dst, src, n * sizeof(Edge))\<close> into a fresh array of \<open>n\<close> edges:
  the first \<open>n\<close> edges of the source array; reading past its end is an error.\<close>

definition memcpy_edges :: "Edge list \<Rightarrow> nat \<Rightarrow> error + Edge list" where
  "memcpy_edges src n = (if n \<le> length src then Inr (take n src) else Inl OutOfBounds)"

text \<open>\<^verbatim>\<open>LowNode(const LowNode& p)\<close>, "for non-TT nodes": the member initialiser list,
  then \<^verbatim>\<open>assert(p.edges_)\<close> and the copy of the edge array.\<close>

definition LowNode_copy :: "LowNode \<Rightarrow> error + LowNode" where
  "LowNode_copy p =
     (case edges_' p of
        None \<Rightarrow> Inl AssertionFailed
      | Some src \<Rightarrow>
          (case memcpy_edges src (unat (num_edges_' p)) of
             Inl err \<Rightarrow> Inl err
           | Inr es \<Rightarrow>
               Inr \<lparr>wl_' = wl_' p, vs_' = vs_' p, weight_' = 0, d_' = d_' p, m_' = m_' p, n_' = 0,
                    terminal_type_' = NonTerminal, lower_bound_' = BLACK_WON,
                    upper_bound_' = WHITE_WON,
                    hash_' = hash_' p, edges_' = Some es, child_' = None, v_' = v_' p, e_' = e_' p,
                    num_parents_' = 0, num_edges_' = num_edges_' p, is_transposition = False,
                    is_tt_' = False\<rparr>))"

text \<open>\<^verbatim>\<open>LowNode(const LowNode& p, const uint64_t hash)\<close>: the same, under the given
  hash.\<close>

definition LowNode_copy_hash :: "LowNode \<Rightarrow> 64 word \<Rightarrow> error + LowNode" where
  "LowNode_copy_hash p hash =
     (case edges_' p of
        None \<Rightarrow> Inl AssertionFailed
      | Some src \<Rightarrow>
          (case memcpy_edges src (unat (num_edges_' p)) of
             Inl err \<Rightarrow> Inl err
           | Inr es \<Rightarrow>
               Inr \<lparr>wl_' = wl_' p, vs_' = vs_' p, weight_' = 0, d_' = d_' p, m_' = m_' p, n_' = 0,
                    terminal_type_' = NonTerminal, lower_bound_' = BLACK_WON,
                    upper_bound_' = WHITE_WON,
                    hash_' = hash, edges_' = Some es, child_' = None, v_' = v_' p, e_' = e_' p,
                    num_parents_' = 0, num_edges_' = num_edges_' p, is_transposition = False,
                    is_tt_' = False\<rparr>))"

subsection \<open>Member functions of \<^verbatim>\<open>LowNode\<close>\<close>

definition HasChildren :: "LowNode \<Rightarrow> bool" where
  "HasChildren p = (0 < num_edges_' p)"

text \<open>\<^verbatim>\<open>GetN()\<close> is the same one-line getter in \<^verbatim>\<open>Node\<close> and in \<^verbatim>\<open>LowNode\<close>.\<close>

definition GetN :: "'a Stats_scheme \<Rightarrow> 32 word" where
  "GetN p = n_' p"

definition GetChildrenVisits :: "LowNode \<Rightarrow> 32 word" where
  "GetChildrenVisits p = n_' p - 1"

definition GetNumEdges :: "LowNode \<Rightarrow> 8 word" where
  "GetNumEdges p = num_edges_' p"

definition GetEdges :: "LowNode \<Rightarrow> Edge list option" where
  "GetEdges p = edges_' p"

text \<open>\<^verbatim>\<open>AddParent\<close>: the increment is on a \<^verbatim>\<open>uint16_t\<close>; the assertion fails when
  it wraps to zero.\<close>

definition AddParent :: "LowNode \<Rightarrow> error + LowNode" where
  "AddParent p =
     (let p1 = p\<lparr>num_parents_' := num_parents_' p + 1\<rparr> in
      if \<not> 0 < num_parents_' p1 then Inl AssertionFailed
      else Inr (p1\<lparr>is_transposition := (is_transposition p1 \<or> 1 < num_parents_' p1)\<rparr>))"

definition RemoveParent :: "LowNode \<Rightarrow> error + LowNode" where
  "RemoveParent p =
     (if \<not> 0 < num_parents_' p then Inl AssertionFailed
      else Inr (p\<lparr>num_parents_' := num_parents_' p - 1\<rparr>))"

definition GetNumParents :: "LowNode \<Rightarrow> 16 word" where
  "GetNumParents p = num_parents_' p"

definition IsTransposition :: "LowNode \<Rightarrow> bool" where
  "IsTransposition p = is_transposition p"

definition GetHash :: "LowNode \<Rightarrow> 64 word" where
  "GetHash p = hash_' p"

definition IsTT :: "LowNode \<Rightarrow> bool" where
  "IsTT p = is_tt_' p"

definition ClearTT :: "LowNode \<Rightarrow> LowNode" where
  "ClearTT p = p\<lparr>is_tt_' := \<not> is_tt_' p\<rparr>"

text \<open>
  \<^verbatim>\<open>SetNNEval\<close>.  \<^verbatim>\<open>WLDMInvariantsHold\<close> is only declared in node.h; the assertion on
  it is taken as the parameter \<open>wldm\<close>.  The edge array is allocated whatever
  \<^verbatim>\<open>eval->num_edges\<close> is, so the payload owns an array afterwards, of length zero when
  there are no edges.
\<close>

definition SetNNEval :: "(LowNode \<Rightarrow> bool) \<Rightarrow> LowNode \<Rightarrow> NNEval \<Rightarrow> error + LowNode" where
  "SetNNEval wldm p eval =
     (if edges_' p = None \<and> n_' p = 0 \<and> child_' p = None
      then
        (case (case nn_edges eval of
                 None \<Rightarrow> if unat (nn_num_edges eval) = 0 then Inr [] else Inl OutOfBounds
               | Some src \<Rightarrow> memcpy_edges src (unat (nn_num_edges eval))) of
           Inl err \<Rightarrow> Inl err
         | Inr es \<Rightarrow>
             (let p1 = p\<lparr>edges_' := Some es, wl_' := nn_q eval, v_' := nn_q eval,
                         d_' := nn_d eval, e_' := nn_e eval, m_' := nn_m eval,
                         vs_' := nn_q eval * nn_q eval\<rparr>
              in if wldm p1 then Inr (p1\<lparr>num_edges_' := nn_num_edges eval\<rparr>)
                 else Inl AssertionFailed))
      else Inl AssertionFailed)"

text \<open>
  Modelled from the spec: \<^verbatim>\<open>LowNode::GetEdgeAt(uint16_t index)\<close> is declared in node.h
  ("return move policy for edge/node at @index") and defined in node.cc, which is not
  among the sources.  It reads \<^verbatim>\<open>edges_[index]\<close>; the spec (7) classes an index at or
  past the number of edges as a contract violation, and reading outside the array has
  no defined result, so there is no value then.
\<close>

definition GetEdgeAt :: "LowNode \<Rightarrow> 16 word \<Rightarrow> Edge option" where
  "GetEdgeAt p index =
     (case edges_' p of
        None \<Rightarrow> None
      | Some es \<Rightarrow> if unat index < length es then Some (es ! unat index) else None)"

text \<open>A payload's life as far as its parent count goes: a sequence of
  \<^verbatim>\<open>AddParent\<close> and \<^verbatim>\<open>RemoveParent\<close> calls, stopping at the first failed assertion.\<close>

datatype parent_call = CallAddParent | CallRemoveParent

fun do_parent_call :: "LowNode \<Rightarrow> parent_call \<Rightarrow> error + LowNode" where
  "do_parent_call p CallAddParent = AddParent p"
| "do_parent_call p CallRemoveParent = RemoveParent p"

fun parent_calls :: "LowNode \<Rightarrow> parent_call list \<Rightarrow> error + LowNode" where
  "parent_calls p [] = Inr p"
| "parent_calls p (c # cs) =
     (case do_parent_call p c of Inl err \<Rightarrow> Inl err | Inr p' \<Rightarrow> parent_calls p' cs)"

subsection \<open>Member functions of \<^verbatim>\<open>Node\<close>\<close>

definition Index :: "Node \<Rightarrow> 16 word" where
  "Index nd = index_' nd"

text \<open>Modelled from the spec: \<^verbatim>\<open>Node::GetNInFlight()\<close> is declared in node.h and
  defined in node.cc; it loads the counter \<^verbatim>\<open>n_in_flight_\<close> ("count of virtual losses
  currently held on this edge").\<close>

definition GetNInFlight :: "Node \<Rightarrow> 32 word" where
  "GetNInFlight nd = n_in_flight_' nd"

subsection \<open>The transposition table\<close>



section \<open>The store: one payload and the nodes of its child list\<close>

text \<open>
  The child list is a linked structure that the iterators point into and that
  \<^verbatim>\<open>GetOrSpawnNode\<close> updates in place, so nodes live in a store, addressed by the
  pointer value.  \<open>payload\<close> is the parent \<^verbatim>\<open>LowNode\<close> the iterators range over,
  \<open>node_at\<close> maps the address of every live \<^verbatim>\<open>Node\<close> to its contents, and
  \<open>allocations\<close> counts the \<^verbatim>\<open>Node\<close> objects created so far; the next object is
  created at that address, so no address is handed out twice.
  A function on the store returns \<open>None\<close> when the call has no defined result: it
  reads through a pointer to no live node, or it does not return.
\<close>

record Store =
  payload :: LowNode
  node_at :: "addr \<rightharpoonup> Node"
  allocations :: nat

text \<open>An \<^verbatim>\<open>atomic_unique_ptr<Node>*\<close>: the address of the payload's \<^verbatim>\<open>child_\<close>, the
  address of the \<^verbatim>\<open>sibling_\<close> member of a node, or a pointer that was never set.\<close>

datatype NodeSlot = Indeterminate | ChildSlot | SiblingSlot addr

text \<open>\<^verbatim>\<open>atomic_unique_ptr::get\<close> through such a pointer.\<close>

definition slot_get :: "Store \<Rightarrow> NodeSlot \<Rightarrow> addr option option" where
  "slot_get s slot =
     (case slot of
        Indeterminate \<Rightarrow> None
      | ChildSlot \<Rightarrow> Some (child_' (payload s))
      | SiblingSlot a \<Rightarrow> map_option sibling_' (node_at s a))"

text \<open>\<^verbatim>\<open>atomic_unique_ptr::set\<close>: store a pointer, deleting nothing.\<close>

definition slot_set :: "Store \<Rightarrow> NodeSlot \<Rightarrow> addr option \<Rightarrow> Store option" where
  "slot_set s slot v =
     (case slot of
        Indeterminate \<Rightarrow> None
      | ChildSlot \<Rightarrow> Some (s\<lparr>payload := (payload s)\<lparr>child_' := v\<rparr>\<rparr>)
      | SiblingSlot a \<Rightarrow>
          (case node_at s a of
             None \<Rightarrow> None
           | Some nd \<Rightarrow> Some (s\<lparr>node_at := (node_at s)(a \<mapsto> nd\<lparr>sibling_' := v\<rparr>)\<rparr>)))"

text \<open>\<^verbatim>\<open>atomic_unique_ptr::compare_exchange(expected, source)\<close>, where \<open>new\<close> is the
  pointer \<^verbatim>\<open>source\<close> manages: on success the slot holds \<open>new\<close> and \<^verbatim>\<open>source\<close> has
  given it up.\<close>

definition compare_exchange ::
  "Store \<Rightarrow> NodeSlot \<Rightarrow> addr option \<Rightarrow> addr \<Rightarrow> (Store \<times> bool) option" where
  "compare_exchange s slot expected new =
     (case slot_get s slot of
        None \<Rightarrow> None
      | Some current \<Rightarrow>
          if current = expected then map_option (\<lambda>s'. (s', True)) (slot_set s slot (Some new))
          else Some (s, False))"

text \<open>\<^verbatim>\<open>std::make_unique<Node>(edge, index)\<close>.\<close>

definition new_Node :: "Store \<Rightarrow> Edge \<Rightarrow> 16 word \<Rightarrow> Store \<times> addr" where
  "new_Node s edge index =
     (s\<lparr>node_at := (node_at s)(allocations s \<mapsto> Node_ctor edge index),
        allocations := Suc (allocations s)\<rparr>,
      allocations s)"

text \<open>\<^verbatim>\<open>delete\<close> of a node: the destructor of its \<^verbatim>\<open>sibling_\<close> member deletes the
  sibling it owns, and so on down the chain.\<close>

partial_function (option) delete_Node :: "Store \<Rightarrow> addr \<Rightarrow> Store option" where
  "delete_Node s a =
     (case node_at s a of
        None \<Rightarrow> None
      | Some nd \<Rightarrow>
          (case sibling_' nd of
             None \<Rightarrow> Some (s\<lparr>node_at := (node_at s)(a := None)\<rparr>)
           | Some b \<Rightarrow>
               Option.bind (delete_Node s b)
                 (\<lambda>s'. Some (s'\<lparr>node_at := (node_at s')(a := None)\<rparr>))))"

subsection \<open>\<^verbatim>\<open>EdgeAndNode\<close> and \<^verbatim>\<open>Edge_Iterator\<close>\<close>

text \<open>
  \<^verbatim>\<open>edge_\<close> points into the parent's edge array: it is \<open>Some k\<close> when it points at
  element \<open>k\<close> (counted from the start of the array, whether or not the array has that
  many elements) and \<open>None\<close> when it is null.
\<close>

record EdgeAndNode =
  edge_' :: "nat option"
  node_' :: "addr option"

record Edge_Iterator = EdgeAndNode +
  node_ptr_' :: NodeSlot
  current_idx_' :: "16 word"
  total_count_' :: "16 word"

text \<open>\<^verbatim>\<open>EdgeAndNode::operator==\<close> compares the edge pointers only.\<close>

definition EdgeAndNode_eq :: "'a EdgeAndNode_scheme \<Rightarrow> 'b EdgeAndNode_scheme \<Rightarrow> bool" where
  "EdgeAndNode_eq x y = (edge_' x = edge_' y)"

text \<open>The "end()" iterator, \<^verbatim>\<open>Edge_Iterator()\<close>: \<^verbatim>\<open>node_ptr_\<close> is not initialised.\<close>

definition Edge_Iterator_end :: Edge_Iterator where
  "Edge_Iterator_end =
     \<lparr>edge_' = None, node_' = None, node_ptr_' = Indeterminate,
      current_idx_' = 0, total_count_' = 0\<rparr>"

text \<open>The loop of \<^verbatim>\<open>Actualize\<close>: advance the slot while it holds a node of smaller
  index.  The result is the slot reached and what it holds.\<close>

partial_function (option) Actualize_loop ::
  "Store \<Rightarrow> NodeSlot \<Rightarrow> 16 word \<Rightarrow> (NodeSlot \<times> addr option) option" where
  "Actualize_loop s slot idx =
     (case slot_get s slot of
        None \<Rightarrow> None
      | Some node \<Rightarrow>
          (case node of
             None \<Rightarrow> Some (slot, None)
           | Some a \<Rightarrow>
               (case node_at s a of
                  None \<Rightarrow> None
                | Some nd \<Rightarrow>
                    if Index nd < idx then Actualize_loop s (SiblingSlot a) idx
                    else Some (slot, Some a))))"

text \<open>\<^verbatim>\<open>Actualize\<close>: the iterator afterwards, and the returned contents of
  \<^verbatim>\<open>node_ptr_\<close> as they were before \<^verbatim>\<open>node_ptr_\<close> stepped past a matching node.\<close>

definition Actualize :: "Store \<Rightarrow> Edge_Iterator \<Rightarrow> (Edge_Iterator \<times> addr option) option" where
  "Actualize s it =
     (case Actualize_loop s (node_ptr_' it) (current_idx_' it) of
        None \<Rightarrow> None
      | Some (slot, node) \<Rightarrow>
          (case node of
             None \<Rightarrow> Some (it\<lparr>node_ptr_' := slot, node_' := None\<rparr>, node)
           | Some a \<Rightarrow>
               (case node_at s a of
                  None \<Rightarrow> None
                | Some nd \<Rightarrow>
                    if Index nd = current_idx_' it
                    then Some (it\<lparr>node_' := Some a, node_ptr_' := SiblingSlot a\<rparr>, node)
                    else Some (it\<lparr>node_ptr_' := slot, node_' := None\<rparr>, node))))"

text \<open>The "begin()" iterator \<^verbatim>\<open>Edge_Iterator(LowNode* parent_node)\<close> for the payload
  of the store.  (For a null \<^verbatim>\<open>parent_node\<close> the constructor leaves the iterator as
  \<open>Edge_Iterator_end\<close>.)\<close>

definition Edge_Iterator_begin :: "Store \<Rightarrow> Edge_Iterator option" where
  "Edge_Iterator_begin s =
     (let it = \<lparr>edge_' = (case GetEdges (payload s) of None \<Rightarrow> None | Some es \<Rightarrow> Some 0),
                node_' = None, node_ptr_' = ChildSlot,
                current_idx_' = 0, total_count_' = ucast (GetNumEdges (payload s))\<rparr>
      in if edge_' it \<noteq> None then map_option fst (Actualize s it) else Some it)"

text \<open>\<^verbatim>\<open>Edge_Iterator::operator++\<close>.  Incrementing a null \<^verbatim>\<open>edge_\<close> has no defined
  result.\<close>

definition Edge_Iterator_next :: "Store \<Rightarrow> Edge_Iterator \<Rightarrow> Edge_Iterator option" where
  "Edge_Iterator_next s it =
     (let it1 = it\<lparr>current_idx_' := current_idx_' it + 1\<rparr>
      in if current_idx_' it1 = total_count_' it1 then Some (it1\<lparr>edge_' := None\<rparr>)
         else (case edge_' it1 of
                 None \<Rightarrow> None
               | Some k \<Rightarrow> map_option fst (Actualize s (it1\<lparr>edge_' := Some (Suc k)\<rparr>))))"

text \<open>The range-based \<^verbatim>\<open>for\<close> loop over \<^verbatim>\<open>Edges()\<close>: the elements it hands to the
  loop body, each as the pair of \<^verbatim>\<open>edge_\<close> and \<^verbatim>\<open>node_\<close>, from the iterator \<open>it\<close> on.\<close>

partial_function (option) Edges_from ::
  "Store \<Rightarrow> Edge_Iterator \<Rightarrow> (nat option \<times> addr option) list option" where
  "Edges_from s it =
     (if EdgeAndNode_eq it Edge_Iterator_end then Some []
      else Option.bind (Edge_Iterator_next s it)
             (\<lambda>it'. Option.bind (Edges_from s it')
                (\<lambda>rest. Some ((edge_' it, node_' it) # rest))))"

definition Edges :: "Store \<Rightarrow> (nat option \<times> addr option) list option" where
  "Edges s = Option.bind (Edge_Iterator_begin s) (Edges_from s)"

text \<open>
  The \<^verbatim>\<open>while (true)\<close> loop of \<^verbatim>\<open>GetOrSpawnNode\<close>, with the prepared node at \<open>new\<close>.
  Leaving through \<^verbatim>\<open>return node_\<close> destroys the local \<^verbatim>\<open>new_node\<close>, which still owns
  the prepared node; leaving through \<^verbatim>\<open>break\<close> runs the last \<^verbatim>\<open>Actualize\<close>.
\<close>

partial_function (option) GetOrSpawnNode_loop ::
  "Store \<Rightarrow> Edge_Iterator \<Rightarrow> addr \<Rightarrow> (Store \<times> Edge_Iterator \<times> addr option) option" where
  "GetOrSpawnNode_loop s it new =
     Option.bind (Actualize s it) (\<lambda>(it1, node).
       if node_' it1 \<noteq> None
       then Option.bind (delete_Node s new) (\<lambda>s'. Some (s', it1, node_' it1))
       else Option.bind (slot_set s (SiblingSlot new) node) (\<lambda>s1.
              Option.bind (compare_exchange s1 (node_ptr_' it1) node new) (\<lambda>(s2, done).
                if done
                then Option.bind (Actualize s2 it1) (\<lambda>(it2, node2). Some (s2, it2, node_' it2))
                else Option.bind (slot_set s2 (SiblingSlot new) None) (\<lambda>s3.
                       GetOrSpawnNode_loop s3 it1 new))))"

text \<open>\<^verbatim>\<open>Edge_Iterator::GetOrSpawnNode(Node* parent)\<close>, where \<^verbatim>\<open>parent->GetLowNode()\<close>
  is the payload of the store.  The result is the store and the iterator afterwards
  and the returned pointer.\<close>

definition GetOrSpawnNode ::
  "Store \<Rightarrow> Edge_Iterator \<Rightarrow> (Store \<times> Edge_Iterator \<times> addr option) option" where
  "GetOrSpawnNode s it =
     (if node_' it \<noteq> None then Some (s, it, node_' it)
      else (case GetEdgeAt (payload s) (current_idx_' it) of
              None \<Rightarrow> None
            | Some edge \<Rightarrow>
                (case new_Node s edge (current_idx_' it) of
                   (s1, new) \<Rightarrow> GetOrSpawnNode_loop s1 it new)))"

subsection \<open>\<^verbatim>\<open>VisitedNode_Iterator\<close>\<close>

text \<open>
  \<^verbatim>\<open>VisitedNode_Iterator\<close>.  Its members \<^verbatim>\<open>node_ptr_\<close> (here a \<^verbatim>\<open>Node*\<close>),
  \<^verbatim>\<open>current_idx_\<close> and \<^verbatim>\<open>total_count_\<close> carry the prefix \<open>vn_\<close>, the names without it
  being those of \<^verbatim>\<open>Edge_Iterator\<close>.
\<close>

record VisitedNode_Iterator =
  vn_node_ptr_' :: "addr option"
  vn_current_idx_' :: "16 word"
  vn_total_count_' :: "16 word"

text \<open>The "end()" iterator \<^verbatim>\<open>VisitedNode_Iterator()\<close>.\<close>

definition VisitedNode_Iterator_end :: VisitedNode_Iterator where
  "VisitedNode_Iterator_end =
     \<lparr>vn_node_ptr_' = None, vn_current_idx_' = 0, vn_total_count_' = 0\<rparr>"

text \<open>\<^verbatim>\<open>VisitedNode_Iterator::operator!=\<close> compares the node pointers.\<close>

definition VisitedNode_Iterator_neq :: "VisitedNode_Iterator \<Rightarrow> VisitedNode_Iterator \<Rightarrow> bool" where
  "VisitedNode_Iterator_neq x y = (vn_node_ptr_' x \<noteq> vn_node_ptr_' y)"

text \<open>The \<^verbatim>\<open>do ... while\<close> loop of \<^verbatim>\<open>VisitedNode_Iterator::operator++\<close> on the value
  of \<^verbatim>\<open>node_ptr_\<close>; the result is the pointer the loop leaves.\<close>

partial_function (option) VisitedNode_next_loop ::
  "(addr \<rightharpoonup> Node) \<Rightarrow> addr option \<Rightarrow> addr option option" where
  "VisitedNode_next_loop h ptr =
     (case ptr of
        None \<Rightarrow> None
      | Some a \<Rightarrow>
          (case h a of
             None \<Rightarrow> None
           | Some nd \<Rightarrow>
               (case sibling_' nd of
                  None \<Rightarrow> Some None
                | Some b \<Rightarrow>
                    (case h b of
                       None \<Rightarrow> None
                     | Some nb \<Rightarrow>
                         if GetN nb = 0 \<and> GetNInFlight nb = 0 then Some None
                         else if GetN nb = 0 then VisitedNode_next_loop h (Some b)
                         else Some (Some b)))))"

definition VisitedNode_Iterator_next :: "Store \<Rightarrow> VisitedNode_Iterator \<Rightarrow> VisitedNode_Iterator option" where
  "VisitedNode_Iterator_next s it =
     map_option (\<lambda>ptr. it\<lparr>vn_node_ptr_' := ptr\<rparr>)
       (VisitedNode_next_loop (node_at s) (vn_node_ptr_' it))"

text \<open>The "begin()" iterator \<^verbatim>\<open>VisitedNode_Iterator(LowNode* parent_node)\<close> for the
  payload of the store.\<close>

definition VisitedNode_Iterator_begin :: "Store \<Rightarrow> VisitedNode_Iterator option" where
  "VisitedNode_Iterator_begin s =
     (let it = \<lparr>vn_node_ptr_' = child_' (payload s), vn_current_idx_' = 0,
                vn_total_count_' = ucast (GetNumEdges (payload s))\<rparr>
      in case vn_node_ptr_' it of
           None \<Rightarrow> Some it
         | Some a \<Rightarrow>
             (case node_at s a of
                None \<Rightarrow> None
              | Some nd \<Rightarrow> if GetN nd = 0 then VisitedNode_Iterator_next s it else Some it))"

text \<open>The range-based \<^verbatim>\<open>for\<close> loop over \<^verbatim>\<open>VisitedNodes()\<close>: the node pointers it
  hands to the loop body.\<close>

partial_function (option) VisitedNodes_from ::
  "Store \<Rightarrow> VisitedNode_Iterator \<Rightarrow> addr list option" where
  "VisitedNodes_from s it =
     (if \<not> VisitedNode_Iterator_neq it VisitedNode_Iterator_end then Some []
      else Option.bind (VisitedNode_Iterator_next s it)
             (\<lambda>it'. Option.bind (VisitedNodes_from s it')
                (\<lambda>rest. Some (the (vn_node_ptr_' it) # rest))))"

definition VisitedNodes :: "Store \<Rightarrow> addr list option" where
  "VisitedNodes s = Option.bind (VisitedNode_Iterator_begin s) (VisitedNodes_from s)"

subsection \<open>The child list as a list\<close>

text \<open>The nodes reached from a pointer by following \<^verbatim>\<open>sibling_\<close> up to the null
  pointer, in order.\<close>

partial_function (option) nodes_from :: "(addr \<rightharpoonup> Node) \<Rightarrow> addr option \<Rightarrow> Node list option" where
  "nodes_from h ptr =
     (case ptr of
        None \<Rightarrow> Some []
      | Some a \<Rightarrow>
          (case h a of
             None \<Rightarrow> None
           | Some nd \<Rightarrow> Option.bind (nodes_from h (sibling_' nd)) (\<lambda>rest. Some (nd # rest))))"

definition child_list :: "Store \<Rightarrow> Node list option" where
  "child_list s = nodes_from (node_at s) (child_' (payload s))"




text \<open>The nodes at a list of pointers, when each points to a live node.\<close>

definition nodes_at :: "Store \<Rightarrow> addr list \<Rightarrow> Node list option" where
  "nodes_at s as = those (map (node_at s) as)"

text \<open>The property of the child list the spec states: strictly ascending indices
  (hence no index twice), each below the number of edges.\<close>

definition child_list_sorted :: "Store \<Rightarrow> bool" where
  "child_list_sorted s =
     (case child_list s of
        None \<Rightarrow> False
      | Some nds \<Rightarrow>
          sorted_wrt (<) (map (\<lambda>nd. unat (Index nd)) nds)
          \<and> distinct (map Index nds)
          \<and> list_all (\<lambda>nd. unat (Index nd) < unat (GetNumEdges (payload s))) nds)"

text \<open>What is asked of the store to start from: the property above, an edge array of
  \<^verbatim>\<open>num_edges_\<close> edges (or none and \<^verbatim>\<open>num_edges_ = 0\<close>, as \<^verbatim>\<open>LowNode(hash)\<close> leaves
  it), and every live node created by an allocation that was counted.\<close>

definition edges_wf :: "LowNode \<Rightarrow> bool" where
  "edges_wf p =
     (case edges_' p of None \<Rightarrow> num_edges_' p = 0
      | Some es \<Rightarrow> length es = unat (num_edges_' p))"

definition store_wf :: "Store \<Rightarrow> bool" where
  "store_wf s =
     (child_list_sorted s \<and> edges_wf (payload s)
      \<and> dom (node_at s) \<subseteq> {..<allocations s})"

text \<open>What the iteration yields, said on the child list as a list of nodes: the head
  when it has visits; then the nodes with visits among those that follow the head, up
  to the first one that has neither visits nor visits in flight.\<close>

definition unvisited :: "Node \<Rightarrow> bool" where
  "unvisited nd = (GetN nd = 0 \<and> GetNInFlight nd = 0)"



text \<open>
  The reason the spec gives for ending the iteration early: once a node with
  \<^verbatim>\<open>n == 0\<close> and \<^verbatim>\<open>n_in_flight == 0\<close> is met, all further nodes also have \<^verbatim>\<open>n == 0\<close>
  (the comment in \<^verbatim>\<open>operator++\<close> says the same of the "section at the end that has
  NStarted of 0").  \<open>no_visits_after_unvisited\<close> says it of the whole list,
  \<open>no_visits_after_unvisited_head\<close> of a list whose head is such a node.
\<close>

definition no_visits_after_unvisited :: "Node list \<Rightarrow> bool" where
  "no_visits_after_unvisited nds =
     list_all (\<lambda>nd. GetN nd = 0) (dropWhile (\<lambda>nd. \<not> unvisited nd) nds)"

definition no_visits_after_unvisited_head :: "Node list \<Rightarrow> bool" where
  "no_visits_after_unvisited_head nds =
     (case nds of
        [] \<Rightarrow> True
      | head # rest \<Rightarrow> unvisited head \<longrightarrow> list_all (\<lambda>nd. GetN nd = 0) rest)"

subsection \<open>Iterators at work on one payload\<close>

text \<open>
  Any number of iterators over the payload are alive at a time.  A call creates one
  (\<^verbatim>\<open>Edges()\<close>), advances one (\<^verbatim>\<open>operator++\<close>) or calls \<^verbatim>\<open>GetOrSpawnNode\<close> on one; the
  calls take effect one after another, each as a whole.  Within one call the
  compare-exchange therefore meets the slot as the preceding \<^verbatim>\<open>Actualize\<close> left it;
  what another thread does between the two is outside this development.
\<close>

datatype iterator_call = CallEdges | CallNext nat | CallGetOrSpawnNode nat

record System =
  store :: Store
  iterators :: "Edge_Iterator list"

definition do_call :: "System \<Rightarrow> iterator_call \<Rightarrow> System option" where
  "do_call sys c =
     (case c of
        CallEdges \<Rightarrow>
          map_option (\<lambda>it. sys\<lparr>iterators := iterators sys @ [it]\<rparr>)
            (Edge_Iterator_begin (store sys))
      | CallNext i \<Rightarrow>
          if i < length (iterators sys)
          then map_option (\<lambda>it. sys\<lparr>iterators := (iterators sys)[i := it]\<rparr>)
                 (Edge_Iterator_next (store sys) (iterators sys ! i))
          else None
      | CallGetOrSpawnNode i \<Rightarrow>
          if i < length (iterators sys)
          then map_option (\<lambda>(s, it, r). \<lparr>store = s, iterators = (iterators sys)[i := it]\<rparr>)
                 (GetOrSpawnNode (store sys) (iterators sys ! i))
          else None)"

fun do_calls :: "System \<Rightarrow> iterator_call list \<Rightarrow> System option" where
  "do_calls sys [] = Some sys"
| "do_calls sys (c # cs) = Option.bind (do_call sys c) (\<lambda>sys'. do_calls sys' cs)"

subsection \<open>Calls step by step\<close>

text \<open>
  Iterators belong to threads, and the calls of different threads overlap.  What one
  thread does from one access to shared memory to the next is a step: a load through
  \<^verbatim>\<open>node_ptr_->get()\<close>, the compare-exchange, the allocation.  A store to the node that
  a thread has prepared and not yet linked is not shared, no other thread can reach that
  node, so it belongs to the step around it.  The steps of the threads interleave in any
  order.

  The loop of \<^verbatim>\<open>Actualize\<close> makes one load in each iteration.  \<open>Actualize_load\<close> is that
  load together with the test that follows it (\<^verbatim>\<open>Index()\<close> reads \<^verbatim>\<open>index_\<close>, which
  never changes): the loop goes on from another slot, or it has ended with the node it
  read.  \<open>Actualize_finish\<close> is the rest of \<^verbatim>\<open>Actualize\<close>, after the loop.
\<close>

datatype Walk = Onward NodeSlot | Arrived "addr option"

definition Actualize_load :: "Store \<Rightarrow> Edge_Iterator \<Rightarrow> Walk option" where
  "Actualize_load s it =
     (case slot_get s (node_ptr_' it) of
        None \<Rightarrow> None
      | Some node \<Rightarrow>
          (case node of
             None \<Rightarrow> Some (Arrived None)
           | Some a \<Rightarrow>
               (case node_at s a of
                  None \<Rightarrow> None
                | Some nd \<Rightarrow>
                    if Index nd < current_idx_' it then Some (Onward (SiblingSlot a))
                    else Some (Arrived (Some a)))))"

definition Actualize_finish :: "Store \<Rightarrow> Edge_Iterator \<Rightarrow> addr option \<Rightarrow> Edge_Iterator option" where
  "Actualize_finish s it node =
     (case node of
        None \<Rightarrow> Some (it\<lparr>node_' := None\<rparr>)
      | Some a \<Rightarrow>
          (case node_at s a of
             None \<Rightarrow> None
           | Some nd \<Rightarrow>
               if Index nd = current_idx_' it
               then Some (it\<lparr>node_' := Some a, node_ptr_' := SiblingSlot a\<rparr>)
               else Some (it\<lparr>node_' := None\<rparr>)))"

text \<open>
  Who called \<^verbatim>\<open>Actualize\<close>: the \<^verbatim>\<open>while (true)\<close> loop of \<^verbatim>\<open>GetOrSpawnNode\<close>, whose
  \<^verbatim>\<open>new_node\<close> is at the address given (\<open>Inserting\<close>); \<^verbatim>\<open>GetOrSpawnNode\<close> after the
  \<^verbatim>\<open>break\<close> (\<open>Linked\<close>); \<^verbatim>\<open>operator++\<close> or the constructor (\<open>Leaving\<close>).
\<close>

datatype Caller = Inserting addr | Linked | Leaving

text \<open>
  Where a thread stands: between two calls, with its iterator (\<open>Idle\<close>); inside
  \<^verbatim>\<open>Actualize\<close>, before a load (\<open>InActualize\<close>); in \<^verbatim>\<open>GetOrSpawnNode\<close> after
  \<^verbatim>\<open>new_sibling->set(node)\<close> and before \<^verbatim>\<open>node_ptr_->compare_exchange(node, new_node)\<close>,
  with \<^verbatim>\<open>new_node\<close> and \<^verbatim>\<open>node\<close> (\<open>BeforeCAS\<close>).
\<close>

datatype Thread =
    Idle Edge_Iterator
  | InActualize Caller Edge_Iterator
  | BeforeCAS Edge_Iterator addr "addr option"

text \<open>What the caller does when \<^verbatim>\<open>Actualize\<close> has returned \<open>node\<close>, up to its next access
  to shared memory: \<^verbatim>\<open>operator++\<close>, the constructor and \<^verbatim>\<open>GetOrSpawnNode\<close> after the
  \<^verbatim>\<open>break\<close> return; the loop of \<^verbatim>\<open>GetOrSpawnNode\<close> returns \<^verbatim>\<open>node_\<close> when it is not null,
  which destroys \<^verbatim>\<open>new_node\<close>, and otherwise stores \<open>node\<close> in the sibling pointer of
  the node it has prepared.\<close>

definition resume :: "Store \<Rightarrow> Caller \<Rightarrow> Edge_Iterator \<Rightarrow> addr option \<Rightarrow> (Store \<times> Thread) option" where
  "resume s caller it node =
     (case caller of
        Leaving \<Rightarrow> Some (s, Idle it)
      | Linked \<Rightarrow> Some (s, Idle it)
      | Inserting new \<Rightarrow>
          if node_' it \<noteq> None
          then map_option (\<lambda>s'. (s', Idle it)) (delete_Node s new)
          else map_option (\<lambda>s1. (s1, BeforeCAS it new node))
                 (slot_set s (SiblingSlot new) node))"

text \<open>One step of a thread.  A thread between two calls has no step to take.  The
  compare-exchange that fails is followed by \<^verbatim>\<open>new_sibling->release()\<close> and the next
  round of the loop; the one that succeeds by the \<^verbatim>\<open>break\<close> and the last
  \<^verbatim>\<open>Actualize\<close>.\<close>

definition thread_step :: "Store \<Rightarrow> Thread \<Rightarrow> (Store \<times> Thread) option" where
  "thread_step s t =
     (case t of
        Idle it \<Rightarrow> None
      | InActualize caller it \<Rightarrow>
          (case Actualize_load s it of
             None \<Rightarrow> None
           | Some (Onward slot) \<Rightarrow> Some (s, InActualize caller (it\<lparr>node_ptr_' := slot\<rparr>))
           | Some (Arrived node) \<Rightarrow>
               (case Actualize_finish s it node of
                  None \<Rightarrow> None
                | Some it1 \<Rightarrow> resume s caller it1 node))
      | BeforeCAS it new node \<Rightarrow>
          (case compare_exchange s (node_ptr_' it) node new of
             None \<Rightarrow> None
           | Some (s2, done) \<Rightarrow>
               if done then Some (s2, InActualize Linked it)
               else map_option (\<lambda>s3. (s3, InActualize (Inserting new) it))
                      (slot_set s2 (SiblingSlot new) None)))"

text \<open>The start of a call, up to its first access to the child list: of the
  constructor \<^verbatim>\<open>Edge_Iterator(LowNode* parent_node)\<close>, of \<^verbatim>\<open>operator++\<close> and of
  \<^verbatim>\<open>GetOrSpawnNode\<close>, which allocates \<^verbatim>\<open>new_node\<close> unless it returns at once.\<close>

definition enter_Edges :: "Store \<Rightarrow> Thread" where
  "enter_Edges s =
     (let it = \<lparr>edge_' = (case GetEdges (payload s) of None \<Rightarrow> None | Some es \<Rightarrow> Some 0),
                node_' = None, node_ptr_' = ChildSlot,
                current_idx_' = 0, total_count_' = ucast (GetNumEdges (payload s))\<rparr>
      in if edge_' it \<noteq> None then InActualize Leaving it else Idle it)"

definition enter_next :: "Edge_Iterator \<Rightarrow> Thread option" where
  "enter_next it =
     (let it1 = it\<lparr>current_idx_' := current_idx_' it + 1\<rparr>
      in if current_idx_' it1 = total_count_' it1 then Some (Idle (it1\<lparr>edge_' := None\<rparr>))
         else (case edge_' it1 of
                 None \<Rightarrow> None
               | Some k \<Rightarrow> Some (InActualize Leaving (it1\<lparr>edge_' := Some (Suc k)\<rparr>))))"

definition enter_GetOrSpawnNode :: "Store \<Rightarrow> Edge_Iterator \<Rightarrow> (Store \<times> Thread) option" where
  "enter_GetOrSpawnNode s it =
     (if node_' it \<noteq> None then Some (s, Idle it)
      else (case GetEdgeAt (payload s) (current_idx_' it) of
              None \<Rightarrow> None
            | Some edge \<Rightarrow>
                (case new_Node s edge (current_idx_' it) of
                   (s1, new) \<Rightarrow> Some (s1, InActualize (Inserting new) it))))"

text \<open>
  A schedule is a list of events: a new thread creates an iterator, a thread between
  two calls starts \<^verbatim>\<open>operator++\<close> or \<^verbatim>\<open>GetOrSpawnNode\<close>, a thread inside a call takes its
  next step.  An event that does not fit the state of its thread has no result.
\<close>

datatype event = EnterEdges | EnterNext nat | EnterGetOrSpawnNode nat | Step nat

record Threads =
  shared :: Store
  threads :: "Thread list"

definition do_event :: "Threads \<Rightarrow> event \<Rightarrow> Threads option" where
  "do_event sys e =
     (case e of
        EnterEdges \<Rightarrow> Some (sys\<lparr>threads := threads sys @ [enter_Edges (shared sys)]\<rparr>)
      | EnterNext i \<Rightarrow>
          if i < length (threads sys)
          then (case threads sys ! i of
                  Idle it \<Rightarrow> map_option (\<lambda>t. sys\<lparr>threads := (threads sys)[i := t]\<rparr>) (enter_next it)
                | _ \<Rightarrow> None)
          else None
      | EnterGetOrSpawnNode i \<Rightarrow>
          if i < length (threads sys)
          then (case threads sys ! i of
                  Idle it \<Rightarrow>
                    map_option (\<lambda>(s, t). \<lparr>shared = s, threads = (threads sys)[i := t]\<rparr>)
                      (enter_GetOrSpawnNode (shared sys) it)
                | _ \<Rightarrow> None)
          else None
      | Step i \<Rightarrow>
          if i < length (threads sys)
          then map_option (\<lambda>(s, t). \<lparr>shared = s, threads = (threads sys)[i := t]\<rparr>)
                 (thread_step (shared sys) (threads sys ! i))
          else None)"

fun interleave :: "Threads \<Rightarrow> event list \<Rightarrow> Threads option" where
  "interleave sys [] = Some sys"
| "interleave sys (e # es) = Option.bind (do_event sys e) (\<lambda>sys'. interleave sys' es)"

text \<open>A thread that runs alone: at most \<open>n\<close> steps, ending when its call has
  returned.\<close>

fun solo :: "nat \<Rightarrow> Store \<Rightarrow> Thread \<Rightarrow> (Store \<times> Thread) option" where
  "solo 0 s t = Some (s, t)"
| "solo (Suc n) s t =
     (case t of
        Idle it \<Rightarrow> Some (s, t)
      | _ \<Rightarrow> Option.bind (thread_step s t) (\<lambda>(s', t'). solo n s' t'))"

text \<open>The iterators of a \<open>System\<close>, each with a thread that is between two calls.\<close>

definition as_threads :: "System \<Rightarrow> Threads" where
  "as_threads sys = \<lparr>shared = store sys, threads = map Idle (iterators sys)\<rparr>"



section \<open>Invariants of the store\<close>

text \<open>
  The notions the proofs about the child list rest on.  \<open>chain h ptr as\<close> says that
  following \<^verbatim>\<open>sibling_\<close> from \<open>ptr\<close> visits exactly the live nodes at the addresses
  \<open>as\<close> and then reaches the null pointer; \<open>idx_at\<close> reads the index of the node at an
  address; \<open>slot_after pre\<close> is the pointer slot that follows the nodes \<open>pre\<close> of the
  list (the payload's \<^verbatim>\<open>child_\<close> when there are none).  \<open>store_inv\<close> is the invariant of
  the store, \<open>iter_inv\<close> what an iterator has to satisfy with respect to it: its slot
  belongs to the list and its owner's index is below the iterator's index, or the
  iterator holds the node of the slot.
\<close>

fun chain :: "(addr \<rightharpoonup> Node) \<Rightarrow> addr option \<Rightarrow> addr list \<Rightarrow> bool" where
  "chain h ptr [] = (ptr = None)"
| "chain h ptr (a # as) =
     (ptr = Some a \<and> (case h a of None \<Rightarrow> False | Some nd \<Rightarrow> chain h (sibling_' nd) as))"

definition idx_at :: "(addr \<rightharpoonup> Node) \<Rightarrow> addr \<Rightarrow> nat" where
  "idx_at h a = (case h a of None \<Rightarrow> 0 | Some nd \<Rightarrow> unat (Index nd))"

definition slot_after :: "addr list \<Rightarrow> NodeSlot" where
  "slot_after pre = (if pre = [] then ChildSlot else SiblingSlot (last pre))"

definition first_of :: "addr list \<Rightarrow> addr option" where
  "first_of post = (case post of [] \<Rightarrow> None | b # bs \<Rightarrow> Some b)"

definition slot_before :: "(addr \<rightharpoonup> Node) \<Rightarrow> addr list \<Rightarrow> NodeSlot \<Rightarrow> nat \<Rightarrow> bool" where
  "slot_before h as slot k =
     (case slot of Indeterminate \<Rightarrow> False | ChildSlot \<Rightarrow> True
      | SiblingSlot a \<Rightarrow> a \<in> set as \<and> idx_at h a < k)"

definition ascending :: "(addr \<rightharpoonup> Node) \<Rightarrow> addr list \<Rightarrow> bool" where
  "ascending h as = sorted_wrt (<) (map (idx_at h) as)"

definition store_inv :: "Store \<Rightarrow> addr list \<Rightarrow> bool" where
  "store_inv s as =
     (chain (node_at s) (child_' (payload s)) as
      \<and> ascending (node_at s) as
      \<and> (\<forall>a\<in>set as. idx_at (node_at s) a < unat (num_edges_' (payload s)))
      \<and> edges_wf (payload s)
      \<and> dom (node_at s) \<subseteq> {..<allocations s})"

definition iter_inv :: "Store \<Rightarrow> addr list \<Rightarrow> Edge_Iterator \<Rightarrow> bool" where
  "iter_inv s as it =
     (total_count_' it = ucast (num_edges_' (payload s))
      \<and> (case node_' it of
            None \<Rightarrow> slot_before (node_at s) as (node_ptr_' it) (unat (current_idx_' it))
          | Some a \<Rightarrow> a \<in> set as \<and> node_ptr_' it = SiblingSlot a
                      \<and> idx_at (node_at s) a \<le> unat (current_idx_' it)
                      \<and> (idx_at (node_at s) a = unat (current_idx_' it)
                           \<or> edge_' it = None
                             \<and> unat (current_idx_' it) = unat (num_edges_' (payload s))))
      \<and> (edge_' it \<noteq> None \<and> num_edges_' (payload s) \<noteq> 0
           \<longrightarrow> unat (current_idx_' it) < unat (num_edges_' (payload s))))"

definition sys_inv :: "System \<Rightarrow> bool" where
  "sys_inv sys =
     (\<exists>as. store_inv (store sys) as \<and> (\<forall>it\<in>set (iterators sys). iter_inv (store sys) as it))"


subsection \<open>Threads inside their calls\<close>











section \<open>Concrete payloads and stores used in the examples\<close>

text \<open>A payload with one edge that has been visited three times: the network's
  original value \<^verbatim>\<open>v_\<close> is 0, the running averages have moved away from it.\<close>

definition visited_source :: LowNode where
  "visited_source =
     \<lparr>wl_' = 1/2, vs_' = 1/4, weight_' = 3, d_' = 1/4, m_' = 10, n_' = 3,
      terminal_type_' = NonTerminal, lower_bound_' = BLACK_WON, upper_bound_' = WHITE_WON,
      hash_' = 7, edges_' = Some [\<lparr>move_' = 100, p_' = 5\<rparr>], child_' = None, v_' = 0, e_' = 0,
      num_parents_' = 1, num_edges_' = 1, is_transposition = False, is_tt_' = True\<rparr>"

definition visited_clone :: LowNode where
  "visited_clone =
     \<lparr>wl_' = 1/2, vs_' = 1/4, weight_' = 0, d_' = 1/4, m_' = 10, n_' = 0,
      terminal_type_' = NonTerminal, lower_bound_' = BLACK_WON, upper_bound_' = WHITE_WON,
      hash_' = 7, edges_' = Some [\<lparr>move_' = 100, p_' = 5\<rparr>], child_' = None, v_' = 0, e_' = 0,
      num_parents_' = 0, num_edges_' = 1, is_transposition = False, is_tt_' = False\<rparr>"

text \<open>Scenario 1 of the spec: a payload with three edges and no children; three
  iterators spawn at index 1, then 0, then 2.\<close>

definition three_edges :: LowNode where
  "three_edges =
     \<lparr>wl_' = 0, vs_' = 0, weight_' = 0, d_' = 0, m_' = 0, n_' = 0,
      terminal_type_' = NonTerminal, lower_bound_' = BLACK_WON, upper_bound_' = WHITE_WON,
      hash_' = 42,
      edges_' = Some [\<lparr>move_' = 10, p_' = 600\<rparr>, \<lparr>move_' = 11, p_' = 300\<rparr>, \<lparr>move_' = 12, p_' = 100\<rparr>],
      child_' = None, v_' = 0, e_' = 0,
      num_parents_' = 1, num_edges_' = 3, is_transposition = False, is_tt_' = True\<rparr>"

definition empty_store :: Store where
  "empty_store = \<lparr>payload = three_edges, node_at = Map.empty, allocations = 0\<rparr>"

definition scenario_calls :: "iterator_call list" where
  "scenario_calls =
     [CallEdges, CallNext 0, CallGetOrSpawnNode 0,
      CallEdges, CallGetOrSpawnNode 1,
      CallEdges, CallNext 2, CallNext 2, CallGetOrSpawnNode 2]"






definition unvisited_head :: Node where
  "unvisited_head = (Node_ctor \<lparr>move_' = 10, p_' = 600\<rparr> 0)\<lparr>sibling_' := Some 1\<rparr>"

definition visited_second :: Node where
  "visited_second = (Node_ctor \<lparr>move_' = 11, p_' = 300\<rparr> 1)\<lparr>n_' := 5\<rparr>"

definition skipped_head_store :: Store where
  "skipped_head_store =
     \<lparr>payload = three_edges\<lparr>child_' := Some 0\<rparr>,
      node_at = [0 \<mapsto> unvisited_head, 1 \<mapsto> visited_second],
      allocations = 2\<rparr>"








definition no_moves :: NNEval where
  "no_moves = \<lparr>nn_edges = Some [], nn_q = 0, nn_d = 1, nn_e = 0, nn_m = 0, nn_num_edges = 0\<rparr>"

definition evaluated_no_moves :: LowNode where
  "evaluated_no_moves = (LowNode_hash 7)\<lparr>edges_' := Some [], d_' := 1\<rparr>"

definition no_moves_store :: Store where
  "no_moves_store = \<lparr>payload = evaluated_no_moves, node_at = Map.empty, allocations = 0\<rparr>"

definition no_moves_begin :: Edge_Iterator where
  "no_moves_begin =
     \<lparr>edge_' = Some 0, node_' = None, node_ptr_' = ChildSlot,
      current_idx_' = 0, total_count_' = 0\<rparr>"














section \<open>Parent count and the transposition flag\<close>

lemma AddParent_keeps_flag:
  assumes "AddParent p = Inr p'" and "is_transposition p"
  shows "is_transposition p'"
  using assms by (auto simp: AddParent_def Let_def split: if_splits)

lemma RemoveParent_keeps_flag:
  assumes "RemoveParent p = Inr p'"
  shows "is_transposition p' = is_transposition p"
  using assms by (auto simp: RemoveParent_def split: if_splits)

lemma parent_calls_keep_flag:
  assumes "parent_calls p cs = Inr p'" and "is_transposition p"
  shows "is_transposition p'"
  using assms
proof (induction cs arbitrary: p)
  case Nil
  then show ?case by simp
next
  case (Cons c cs)
  from Cons.prems(1) obtain p1 where step: "do_parent_call p c = Inr p1"
    and rest: "parent_calls p1 cs = Inr p'"
    by (auto split: sum.splits)
  have "is_transposition p1"
  proof (cases c)
    case CallAddParent
    with step Cons.prems(2) show ?thesis by (simp add: AddParent_keeps_flag)
  next
    case CallRemoveParent
    with step Cons.prems(2) show ?thesis by (simp add: RemoveParent_keeps_flag)
  qed
  with rest show ?case by (rule Cons.IH)
qed

lemma AddParent_sets_flag:
  assumes "AddParent p = Inr p'" and "1 < num_parents_' p'"
  shows "is_transposition p'"
  using assms by (auto simp: AddParent_def Let_def split: if_splits)

text \<open>
  Claim C4.  Once an \<^verbatim>\<open>AddParent\<close> call has left \<^verbatim>\<open>num_parents_\<close> above 1,
  \<^verbatim>\<open>IsTransposition()\<close> is true at once and stays true after every later sequence of
  \<^verbatim>\<open>AddParent\<close> and \<^verbatim>\<open>RemoveParent\<close> calls.
\<close>

theorem transposition_flag_sticky:
  assumes "AddParent p = Inr p1" and "1 < GetNumParents p1"
    and "parent_calls p1 cs = Inr p2"
  shows "IsTransposition p1 \<and> IsTransposition p2"
proof -
  have "is_transposition p1"
    using assms(1,2) by (simp add: AddParent_sets_flag GetNumParents_def)
  moreover from assms(3) this have "is_transposition p2"
    by (rule parent_calls_keep_flag)
  ultimately show ?thesis by (simp add: IsTransposition_def)
qed

theorem transposition_flag_sticky_witness:
  "AddParent ((LowNode_hash 7)\<lparr>num_parents_' := 1\<rparr>)
     = Inr ((LowNode_hash 7)\<lparr>num_parents_' := 2, is_transposition := True\<rparr>)
   \<and> 1 < GetNumParents ((LowNode_hash 7)\<lparr>num_parents_' := 2, is_transposition := True\<rparr>)
   \<and> parent_calls ((LowNode_hash 7)\<lparr>num_parents_' := 2, is_transposition := True\<rparr>)
         [CallRemoveParent, CallRemoveParent]
     = Inr ((LowNode_hash 7)\<lparr>num_parents_' := 0, is_transposition := True\<rparr>)
   \<and> GetNumParents ((LowNode_hash 7)\<lparr>num_parents_' := 0, is_transposition := True\<rparr>) = 0
   \<and> IsTransposition ((LowNode_hash 7)\<lparr>num_parents_' := 2, is_transposition := True\<rparr>)
   \<and> IsTransposition ((LowNode_hash 7)\<lparr>num_parents_' := 0, is_transposition := True\<rparr>)"
proof -
  let ?p = "(LowNode_hash 7)\<lparr>num_parents_' := 1\<rparr>"
  let ?p1 = "(LowNode_hash 7)\<lparr>num_parents_' := 2, is_transposition := True\<rparr>"
  let ?p2 = "(LowNode_hash 7)\<lparr>num_parents_' := 0, is_transposition := True\<rparr>"
  have a: "AddParent ?p = Inr ?p1"
    by (simp add: AddParent_def LowNode_hash_def)
  have b: "1 < GetNumParents ?p1"
    by (simp add: GetNumParents_def)
  have c: "parent_calls ?p1 [CallRemoveParent, CallRemoveParent] = Inr ?p2"
    by (simp add: RemoveParent_def LowNode_hash_def)
  have "GetNumParents ?p2 = 0"
    by (simp add: GetNumParents_def)
  with a b c transposition_flag_sticky [OF a b c] show ?thesis
    by simp
qed

section \<open>The table flag\<close>

text \<open>
  Claim C9.  \<^verbatim>\<open>ClearTT()\<close> negates \<^verbatim>\<open>is_tt_\<close>: the flag after the call is the
  negation of the flag before it (so a payload that was not a table payload reports
  \<^verbatim>\<open>IsTT()\<close> afterwards), nothing else changes, and two calls in a row give back the
  payload they started from.
\<close>

theorem ClearTT_negates:
  "IsTT (ClearTT p) = (\<not> IsTT p)
   \<and> ClearTT p = p\<lparr>is_tt_' := \<not> IsTT p\<rparr>
   \<and> ClearTT (ClearTT p) = p"
  by (simp add: ClearTT_def IsTT_def)

section \<open>Visits of the children\<close>

lemma unat_minus_one_32:
  fixes x :: "32 word"
  assumes "1 \<le> x"
  shows "unat (x - 1) = unat x - 1"
proof -
  from assms have "x \<noteq> 0" by auto
  then show ?thesis by (rule unat_minus_one)
qed

lemma unat_all_ones_32: "unat (- 1 :: 32 word) = 4294967295"
  by (simp add: unsigned_minus_1_eq_mask mask_eq_exp_minus_1)

text \<open>
  Claim C10.  \<^verbatim>\<open>GetChildrenVisits()\<close> is \<^verbatim>\<open>n_ - 1\<close> on 32-bit unsigned words: on a
  payload with \<^verbatim>\<open>n_ = 0\<close> it wraps to 2^32 - 1, and with \<^verbatim>\<open>n_ \<ge> 1\<close> it is one less
  than \<^verbatim>\<open>n_\<close> as a number.
\<close>

theorem GetChildrenVisits_wraps:
  "GetChildrenVisits p = GetN p - 1
   \<and> (GetN p = 0 \<longrightarrow> unat (GetChildrenVisits p) = 2 ^ 32 - 1)
   \<and> (1 \<le> GetN p \<longrightarrow> unat (GetChildrenVisits p) = unat (GetN p) - 1
                       \<and> unat (GetChildrenVisits p) + 1 = unat (GetN p))"
proof (intro conjI impI)
  show "GetChildrenVisits p = GetN p - 1"
    by (simp add: GetChildrenVisits_def GetN_def)
next
  assume "GetN p = 0"
  then show "unat (GetChildrenVisits p) = 2 ^ 32 - 1"
    by (simp add: GetChildrenVisits_def GetN_def unat_all_ones_32)
next
  assume one: "1 \<le> GetN p"
  then show sub: "unat (GetChildrenVisits p) = unat (GetN p) - 1"
    by (simp add: GetChildrenVisits_def GetN_def unat_minus_one_32)
  from one have "GetN p \<noteq> 0" by auto
  then have "0 < unat (GetN p)" by (simp add: unat_gt_0)
  with sub show "unat (GetChildrenVisits p) + 1 = unat (GetN p)" by simp
qed

theorem GetChildrenVisits_wraps_witness:
  "GetN (LowNode_hash 7) = 0
   \<and> unat (GetChildrenVisits (LowNode_hash 7)) = 4294967295
   \<and> 1 \<le> GetN ((LowNode_hash 7)\<lparr>n_' := 5\<rparr>)
   \<and> unat (GetChildrenVisits ((LowNode_hash 7)\<lparr>n_' := 5\<rparr>)) = 4"
proof -
  have z: "GetN (LowNode_hash 7) = 0"
    by (simp add: GetN_def LowNode_hash_def)
  have f: "1 \<le> GetN ((LowNode_hash 7)\<lparr>n_' := 5\<rparr>)"
    by (simp add: GetN_def)
  have five: "unat (GetN ((LowNode_hash 7)\<lparr>n_' := 5\<rparr>)) = 5"
    by (simp add: GetN_def)
  have "unat (GetChildrenVisits (LowNode_hash 7)) = 2 ^ 32 - 1"
    using GetChildrenVisits_wraps [of "LowNode_hash 7"] z by blast
  then have zero: "unat (GetChildrenVisits (LowNode_hash 7)) = 4294967295"
    by simp
  have "unat (GetChildrenVisits ((LowNode_hash 7)\<lparr>n_' := 5\<rparr>))
          = unat (GetN ((LowNode_hash 7)\<lparr>n_' := 5\<rparr>)) - 1"
    using GetChildrenVisits_wraps [of "(LowNode_hash 7)\<lparr>n_' := 5\<rparr>"] f by blast
  with five have "unat (GetChildrenVisits ((LowNode_hash 7)\<lparr>n_' := 5\<rparr>)) = 4"
    by simp
  with zero show ?thesis using z f by simp
qed

section \<open>Clones\<close>

lemma memcpy_edges_copies:
  assumes "n \<le> length src"
  shows "\<exists>es. memcpy_edges src n = Inr es \<and> length es = n \<and> (\<forall>i<n. es ! i = src ! i)"
  using assms by (simp add: memcpy_edges_def)

text \<open>
  Claim C5, as amended.  For every source payload that owns an edge array holding its
  \<^verbatim>\<open>num_edges_\<close> edges, the copy constructor \<^verbatim>\<open>LowNode(const LowNode&)\<close> returns a
  clone with \<^verbatim>\<open>is_tt_ = false\<close>, an element-wise copy of the edge array, the source's
  original evaluation (\<^verbatim>\<open>v_\<close>, \<^verbatim>\<open>e_\<close>) and hash, no children, no parents,
  \<^verbatim>\<open>n_ = 0\<close>, \<^verbatim>\<open>weight_ = 0\<close>, no terminal status and the widest bounds; the running
  averages \<^verbatim>\<open>wl_\<close>, \<^verbatim>\<open>d_\<close>, \<^verbatim>\<open>m_\<close> and \<^verbatim>\<open>vs_\<close> are copied from the source as they
  stand.
\<close>

theorem LowNode_copy_clone:
  assumes "GetEdges p = Some src" and "unat (GetNumEdges p) \<le> length src"
  shows "\<exists>c es. LowNode_copy p = Inr c
           \<and> \<not> IsTT c
           \<and> GetEdges c = Some es \<and> GetNumEdges c = GetNumEdges p
           \<and> length es = unat (GetNumEdges p)
           \<and> (\<forall>i < unat (GetNumEdges p). es ! i = src ! i)
           \<and> v_' c = v_' p \<and> e_' c = e_' p \<and> GetHash c = GetHash p
           \<and> child_' c = None \<and> GetNumParents c = 0 \<and> \<not> IsTransposition c
           \<and> GetN c = 0 \<and> weight_' c = 0
           \<and> terminal_type_' c = NonTerminal
           \<and> lower_bound_' c = BLACK_WON \<and> upper_bound_' c = WHITE_WON
           \<and> wl_' c = wl_' p \<and> d_' c = d_' p \<and> m_' c = m_' p \<and> vs_' c = vs_' p"
proof -
  from assms(2) obtain es where es: "memcpy_edges src (unat (num_edges_' p)) = Inr es"
    and len: "length es = unat (num_edges_' p)"
    and same: "\<forall>i < unat (num_edges_' p). es ! i = src ! i"
    using memcpy_edges_copies [of "unat (num_edges_' p)" src]
    by (auto simp: GetNumEdges_def)
  from assms(1) es have "LowNode_copy p =
      Inr \<lparr>wl_' = wl_' p, vs_' = vs_' p, weight_' = 0, d_' = d_' p, m_' = m_' p, n_' = 0,
           terminal_type_' = NonTerminal, lower_bound_' = BLACK_WON,
           upper_bound_' = WHITE_WON,
           hash_' = hash_' p, edges_' = Some es, child_' = None, v_' = v_' p, e_' = e_' p,
           num_parents_' = 0, num_edges_' = num_edges_' p, is_transposition = False,
           is_tt_' = False\<rparr>"
    by (simp add: LowNode_copy_def GetEdges_def)
  with len same show ?thesis
    by (simp add: IsTT_def GetEdges_def GetNumEdges_def GetHash_def GetNumParents_def
        IsTransposition_def GetN_def)
qed

theorem LowNode_copy_clone_witness:
  "GetEdges visited_source = Some [\<lparr>move_' = 100, p_' = 5\<rparr>]
   \<and> unat (GetNumEdges visited_source) \<le> length [\<lparr>move_' = 100, p_' = 5\<rparr>]
   \<and> (\<exists>c. LowNode_copy visited_source = Inr c \<and> \<not> IsTT c \<and> GetN c = 0 \<and> weight_' c = 0
          \<and> wl_' c = wl_' visited_source)"
proof -
  have a: "GetEdges visited_source = Some [\<lparr>move_' = 100, p_' = 5\<rparr>]"
    by (simp add: GetEdges_def visited_source_def)
  have b: "unat (GetNumEdges visited_source) \<le> length [\<lparr>move_' = 100, p_' = 5\<rparr>]"
    by (simp add: GetNumEdges_def visited_source_def)
  from LowNode_copy_clone [OF a b] a b show ?thesis
    by blast
qed

text \<open>
  The claim as it was stated fails where it says that the clone carries none of the
  source's accumulated statistics: the clone of the payload visited three times has
  the source's running averages (\<^verbatim>\<open>wl_\<close> = 1/2 where the original value \<^verbatim>\<open>v_\<close> is 0),
  not those of a fresh payload.
\<close>

theorem LowNode_copy_carries_averages:
  "LowNode_copy visited_source = Inr visited_clone
   \<and> GetN visited_source = 3 \<and> v_' visited_source = 0 \<and> wl_' visited_source = 1/2
   \<and> wl_' visited_clone = 1/2 \<and> wl_' visited_clone \<noteq> wl_' (LowNode_hash 7)
   \<and> d_' visited_clone = 1/4 \<and> m_' visited_clone = 10 \<and> vs_' visited_clone = 1/4"
  by (simp add: LowNode_copy_def memcpy_edges_def visited_source_def visited_clone_def
      GetN_def LowNode_hash_def)

section \<open>Insertion of a copy into the transposition table\<close>

lemma LowNode_copy_hash_flag:
  assumes "LowNode_copy_hash p h = Inr l"
  shows "\<not> IsTT l"
  using assms
  by (auto simp: LowNode_copy_hash_def IsTT_def split: option.splits sum.splits)




section \<open>The child list under \<^verbatim>\<open>GetOrSpawnNode\<close>\<close>

lemma chain_live: "chain h p as \<Longrightarrow> set as \<subseteq> dom h"
  by (induction as arbitrary: p) (auto split: option.splits)

lemma chain_first: "chain h p as \<Longrightarrow> p = first_of as"
  by (cases as) (auto simp: first_of_def)

lemma chain_unique: "chain h p as \<Longrightarrow> chain h p bs \<Longrightarrow> as = bs"
proof (induction as arbitrary: p bs)
  case Nil
  then show ?case by (cases bs) auto
next
  case (Cons a as)
  then show ?case by (cases bs) (auto split: option.splits)
qed

lemma chain_frame_upd:
  "chain h p as \<Longrightarrow> a \<notin> set as \<Longrightarrow> chain (h(a := v)) p as"
  by (induction as arbitrary: p) (auto split: option.splits)

lemma chain_suffix:
  "chain h p (ys @ a # zs) \<Longrightarrow> \<exists>nd. h a = Some nd \<and> chain h (sibling_' nd) zs"
  by (induction ys arbitrary: p) (auto split: option.splits)

lemma chain_drop:
  "chain h p (ys @ zs) \<Longrightarrow> ys \<noteq> [] \<Longrightarrow> \<exists>nd. h (last ys) = Some nd \<and> chain h (sibling_' nd) zs"
proof -
  assume c: "chain h p (ys @ zs)" and ne: "ys \<noteq> []"
  from ne have "ys @ zs = butlast ys @ last ys # zs" by simp
  with c have "chain h p (butlast ys @ last ys # zs)" by simp
  then show ?thesis by (rule chain_suffix)
qed

lemma chain_relink:
  assumes "chain h p (ys @ b # zs)" and "b \<notin> set ys" and "b \<notin> set zs'"
    and "h b = Some nd" and "chain h q zs'"
  shows "chain (h(b \<mapsto> nd\<lparr>sibling_' := q\<rparr>)) p (ys @ b # zs')"
  using assms
proof (induction ys arbitrary: p)
  case Nil
  from Nil.prems(5,3) have "chain (h(b := Some (nd\<lparr>sibling_' := q\<rparr>))) q zs'"
    by (rule chain_frame_upd)
  moreover from Nil.prems(1) have "p = Some b" by simp
  ultimately show ?case by (simp add: fun_upd_def)
next
  case (Cons y ys)
  from Cons.prems(1) obtain ny where y: "h y = Some ny" and p: "p = Some y"
    and rest: "chain h (sibling_' ny) (ys @ b # zs)"
    by (auto split: option.splits)
  from Cons.prems(2) have ne: "y \<noteq> b" and nin: "b \<notin> set ys" by auto
  from Cons.IH [OF rest nin Cons.prems(3,4,5)] y p ne show ?case
    by (simp add: fun_upd_def)
qed

lemma nodes_from_chain:
  "chain h p as \<Longrightarrow> nodes_from h p = Some (map (\<lambda>a. the (h a)) as)"
proof (induction as arbitrary: p)
  case Nil
  then show ?case by (simp add: nodes_from.simps)
next
  case (Cons a as)
  then obtain nd where nd: "h a = Some nd" and p: "p = Some a"
    and rest: "chain h (sibling_' nd) as"
    by (auto split: option.splits)
  from Cons.IH [OF rest] nd p show ?case
    by (subst nodes_from.simps) simp
qed

lemma chain_of_nodes_from:
  "nodes_from h p = Some nds \<Longrightarrow> \<exists>as. chain h p as \<and> nds = map (\<lambda>a. the (h a)) as"
proof (induction nds arbitrary: p)
  case Nil
  then have "p = None"
    by (subst (asm) nodes_from.simps) (auto split: option.splits bind_splits)
  then show ?case by simp
next
  case (Cons nd nds)
  from Cons.prems obtain a where p: "p = Some a" and a: "h a = Some nd"
    and rest: "nodes_from h (sibling_' nd) = Some nds"
    by (subst (asm) nodes_from.simps) (auto split: option.splits bind_splits)
  from Cons.IH [OF rest] obtain as where "chain h (sibling_' nd) as"
    and "nds = map (\<lambda>a. the (h a)) as" by blast
  with p a have "chain h p (a # as) \<and> nd # nds = map (\<lambda>a. the (h a)) (a # as)"
    by simp
  then show ?case by (rule exI)
qed

lemma Actualize_loop_walk:
  assumes "chain (node_at s) p xs" and "slot_get s slot = Some p"
  shows "Actualize_loop s slot k =
           Some (if takeWhile (\<lambda>a. idx_at (node_at s) a < unat k) xs = [] then slot
                 else SiblingSlot (last (takeWhile (\<lambda>a. idx_at (node_at s) a < unat k) xs)),
                 first_of (dropWhile (\<lambda>a. idx_at (node_at s) a < unat k) xs))"
  using assms
proof (induction xs arbitrary: slot p)
  case Nil
  then show ?case
    by (subst Actualize_loop.simps) (simp add: first_of_def)
next
  case (Cons a xs)
  then obtain nd where nd: "node_at s a = Some nd" and p: "p = Some a"
    and rest: "chain (node_at s) (sibling_' nd) xs"
    by (auto split: option.splits)
  have idx: "idx_at (node_at s) a = unat (Index nd)"
    using nd by (simp add: idx_at_def)
  show ?case
  proof (cases "Index nd < k")
    case True
    have get: "slot_get s (SiblingSlot a) = Some (sibling_' nd)"
      using nd by (simp add: slot_get_def)
    from True have lt: "idx_at (node_at s) a < unat k"
      by (simp add: idx word_less_nat_alt)
    have "Actualize_loop s slot k = Actualize_loop s (SiblingSlot a) k"
      using Cons.prems(2) p nd True by (subst Actualize_loop.simps) simp
    also note Cons.IH [OF rest get]
    finally show ?thesis using lt by (simp add: first_of_def)
  next
    case False
    then have nlt: "\<not> idx_at (node_at s) a < unat k"
      by (simp add: idx word_less_nat_alt)
    show ?thesis
      using Cons.prems(2) p nd False nlt
      by (subst Actualize_loop.simps) (simp add: first_of_def)
  qed
qed

lemma ascending_distinct: "ascending h as \<Longrightarrow> distinct as"
proof -
  assume "ascending h as"
  then have "distinct (map (idx_at h) as)"
    by (simp add: ascending_def strict_sorted_iff)
  then show ?thesis by (simp add: distinct_map)
qed

lemma takeWhile_below:
  assumes "ascending h (ys @ a # zs)" and "idx_at h a < k"
  shows "takeWhile (\<lambda>b. idx_at h b < k) (ys @ a # zs) = ys @ a # takeWhile (\<lambda>b. idx_at h b < k) zs"
    and "dropWhile (\<lambda>b. idx_at h b < k) (ys @ a # zs) = dropWhile (\<lambda>b. idx_at h b < k) zs"
proof -
  from assms have all: "\<forall>y\<in>set ys. idx_at h y < k"
    by (auto simp: ascending_def sorted_wrt_append)
  then show "takeWhile (\<lambda>b. idx_at h b < k) (ys @ a # zs) = ys @ a # takeWhile (\<lambda>b. idx_at h b < k) zs"
    using assms(2) by (simp add: takeWhile_append2)
  from all show "dropWhile (\<lambda>b. idx_at h b < k) (ys @ a # zs) = dropWhile (\<lambda>b. idx_at h b < k) zs"
    using assms(2) by (simp add: dropWhile_append2)
qed

lemma Actualize_loop_from_slot:
  assumes ch: "chain (node_at s) (child_' (payload s)) as"
    and asc: "ascending (node_at s) as"
    and slot: "slot_before (node_at s) as slot (unat k)"
  shows "Actualize_loop s slot k =
           Some (slot_after (takeWhile (\<lambda>a. idx_at (node_at s) a < unat k) as),
                 first_of (dropWhile (\<lambda>a. idx_at (node_at s) a < unat k) as))"
proof (cases slot)
  case Indeterminate
  with slot show ?thesis by (simp add: slot_before_def)
next
  case ChildSlot
  have "slot_get s ChildSlot = Some (child_' (payload s))"
    by (simp add: slot_get_def)
  from Actualize_loop_walk [OF ch this, of k] ChildSlot show ?thesis
    by (simp add: slot_after_def)
next
  case (SiblingSlot a)
  with slot have mem: "a \<in> set as" and lt: "idx_at (node_at s) a < unat k"
    by (simp_all add: slot_before_def)
  from mem obtain ys zs where split: "as = ys @ a # zs"
    by (auto simp: in_set_conv_decomp)
  from ch split obtain nd where nd: "node_at s a = Some nd"
    and rest: "chain (node_at s) (sibling_' nd) zs"
    using chain_suffix by blast
  have get: "slot_get s (SiblingSlot a) = Some (sibling_' nd)"
    using nd by (simp add: slot_get_def)
  from asc split have asc': "ascending (node_at s) (ys @ a # zs)" by simp
  note tw = takeWhile_below [OF asc' lt]
  from Actualize_loop_walk [OF rest get, of k] SiblingSlot split tw show ?thesis
    by (simp add: slot_after_def)
qed

lemma takeWhile_all_below:
  "a \<in> set (takeWhile (\<lambda>a. idx_at h a < k) as) \<Longrightarrow> idx_at h a < k"
  by (auto dest: set_takeWhileD)

lemma dropWhile_all_above:
  assumes "ascending h as" and "b \<in> set (dropWhile (\<lambda>a. idx_at h a < k) as)"
  shows "k \<le> idx_at h b"
proof (cases "dropWhile (\<lambda>a. idx_at h a < k) as")
  case Nil
  with assms(2) show ?thesis by simp
next
  case (Cons c cs)
  then have c: "\<not> idx_at h c < k"
    using hd_dropWhile [of "\<lambda>a. idx_at h a < k" as] by simp
  have "as = takeWhile (\<lambda>a. idx_at h a < k) as @ c # cs"
    using Cons takeWhile_dropWhile_id [of "\<lambda>a. idx_at h a < k" as] by simp
  with assms(1) have "ascending h (c # cs)"
    unfolding ascending_def
    by (metis map_append sorted_wrt_append)
  then have "\<forall>x\<in>set cs. idx_at h c < idx_at h x"
    by (simp add: ascending_def)
  with c assms(2) Cons show ?thesis by auto
qed

lemma dropWhile_rest_above:
  assumes "ascending h as" and "dropWhile (\<lambda>a. idx_at h a < k) as = c # cs"
    and "idx_at h c \<noteq> k" and "b \<in> set (c # cs)"
  shows "k < idx_at h b"
proof -
  have c: "\<not> idx_at h c < k"
    using hd_dropWhile [of "\<lambda>a. idx_at h a < k" as] assms(2) by simp
  have "as = takeWhile (\<lambda>a. idx_at h a < k) as @ c # cs"
    using assms(2) takeWhile_dropWhile_id [of "\<lambda>a. idx_at h a < k" as] by simp
  with assms(1) have "ascending h (c # cs)"
    unfolding ascending_def
    by (metis map_append sorted_wrt_append)
  then have "\<forall>x\<in>set cs. idx_at h c < idx_at h x"
    by (simp add: ascending_def)
  with c assms(3,4) show ?thesis by auto
qed

lemma Actualize_spec:
  assumes inv: "store_inv s as"
    and slot: "slot_before (node_at s) as (node_ptr_' it) (unat (current_idx_' it))"
  shows "Actualize s it =
           Some (case first_of (dropWhile (\<lambda>a. idx_at (node_at s) a < unat (current_idx_' it)) as) of
                   None \<Rightarrow>
                     (it\<lparr>node_ptr_' := slot_after (takeWhile (\<lambda>a. idx_at (node_at s) a < unat (current_idx_' it)) as),
                         node_' := None\<rparr>, None)
                 | Some b \<Rightarrow>
                     if idx_at (node_at s) b = unat (current_idx_' it)
                     then (it\<lparr>node_' := Some b, node_ptr_' := SiblingSlot b\<rparr>, Some b)
                     else (it\<lparr>node_ptr_' := slot_after (takeWhile (\<lambda>a. idx_at (node_at s) a < unat (current_idx_' it)) as),
                              node_' := None\<rparr>, Some b))"
proof -
  let ?P = "\<lambda>a. idx_at (node_at s) a < unat (current_idx_' it)"
  from inv have ch: "chain (node_at s) (child_' (payload s)) as"
    and asc: "ascending (node_at s) as"
    by (simp_all add: store_inv_def)
  note loop = Actualize_loop_from_slot [OF ch asc slot]
  show ?thesis
  proof (cases "first_of (dropWhile ?P as)")
    case None
    with loop show ?thesis by (simp add: Actualize_def)
  next
    case (Some b)
    then have "b \<in> set (dropWhile ?P as)"
      by (auto simp: first_of_def split: list.splits)
    then have "b \<in> set as" by (rule set_dropWhileD)
    with chain_live [OF ch] obtain nd where nd: "node_at s b = Some nd" by auto
    then have "idx_at (node_at s) b = unat (Index nd)" by (simp add: idx_at_def)
    then have eq: "(Index nd = current_idx_' it) = (idx_at (node_at s) b = unat (current_idx_' it))"
      by (simp add: word_unat_eq_iff)
    from loop Some nd eq show ?thesis by (simp add: Actualize_def)
  qed
qed

lemma idx_at_other: "a \<noteq> b \<Longrightarrow> idx_at (h(b := v)) a = idx_at h a"
  by (simp add: idx_at_def)

lemma idx_at_relink:
  "h b = Some nd \<Longrightarrow> idx_at (h(b \<mapsto> nd\<lparr>sibling_' := q\<rparr>)) a = idx_at h a"
  by (simp add: idx_at_def Index_def)

lemma ascending_cong:
  "(\<And>a. a \<in> set as \<Longrightarrow> idx_at h' a = idx_at h a) \<Longrightarrow> ascending h' as = ascending h as"
  by (simp add: ascending_def cong: map_cong)

lemma split_at_index:
  assumes "ascending h as" and "b \<in> set as" and "idx_at h b = k"
  shows "first_of (dropWhile (\<lambda>a. idx_at h a < k) as) = Some b"
proof -
  from assms(2) obtain ys zs where split: "as = ys @ b # zs"
    by (auto simp: in_set_conv_decomp)
  with assms(1,3) have "\<forall>y\<in>set ys. idx_at h y < k"
    by (auto simp: ascending_def sorted_wrt_append)
  with split assms(3) have "dropWhile (\<lambda>a. idx_at h a < k) as = b # zs"
    by (simp add: dropWhile_append2)
  then show ?thesis by (simp add: first_of_def)
qed

lemma slot_holds_rest:
  assumes ch: "chain (node_at s) (child_' (payload s)) (pre @ post)"
  shows "slot_get s (slot_after pre) = Some (first_of post)"
proof (cases "pre = []")
  case True
  with ch have "child_' (payload s) = first_of post"
    using chain_first by simp
  with True show ?thesis by (simp add: slot_after_def slot_get_def)
next
  case False
  from chain_drop [OF ch False] obtain nd where nd: "node_at s (last pre) = Some nd"
    and rest: "chain (node_at s) (sibling_' nd) post" by blast
  from rest have "sibling_' nd = first_of post" by (rule chain_first)
  with nd False show ?thesis by (simp add: slot_after_def slot_get_def)
qed

text \<open>Linking a prepared node in between \<open>pre\<close> and \<open>post\<close>.\<close>

lemma link_between:
  assumes ch: "chain (node_at s) (child_' (payload s)) (pre @ post)"
    and dist: "distinct (pre @ post)"
    and new: "node_at s new = Some nd" "sibling_' nd = first_of post" "new \<notin> set (pre @ post)"
  shows "\<exists>s'. slot_set s (slot_after pre) (Some new) = Some s'
           \<and> chain (node_at s') (child_' (payload s')) (pre @ new # post)
           \<and> (\<forall>a. idx_at (node_at s') a = idx_at (node_at s) a)
           \<and> dom (node_at s') = dom (node_at s)
           \<and> allocations s' = allocations s
           \<and> edges_' (payload s') = edges_' (payload s)
           \<and> num_edges_' (payload s') = num_edges_' (payload s)"
proof -
  have post: "chain (node_at s) (first_of post) post"
  proof (cases "pre = []")
    case True
    with ch chain_first [of "node_at s" "child_' (payload s)" post] show ?thesis by simp
  next
    case False
    from chain_drop [OF ch False] obtain n1 :: Node where n1: "chain (node_at s) (sibling_' n1) post"
      by auto
    from chain_first [OF n1] n1 show ?thesis by simp
  qed
  with new have tail: "chain (node_at s) (Some new) (new # post)" by simp
  show ?thesis
  proof (cases "pre = []")
    case True
    let ?s' = "s\<lparr>payload := (payload s)\<lparr>child_' := Some new\<rparr>\<rparr>"
    have "slot_set s (slot_after pre) (Some new) = Some ?s'"
      using True by (simp add: slot_after_def slot_set_def)
    moreover have "chain (node_at ?s') (child_' (payload ?s')) (pre @ new # post)"
      using tail True by simp
    ultimately show ?thesis by simp
  next
    case False
    define b where "b = last pre"
    define ys where "ys = butlast pre"
    from False have pre: "pre = ys @ [b]" by (simp add: b_def ys_def)
    from chain_drop [OF ch False] obtain nb where nb: "node_at s b = Some nb"
      by (auto simp: b_def)
    let ?h' = "(node_at s)(b \<mapsto> nb\<lparr>sibling_' := Some new\<rparr>)"
    let ?s' = "s\<lparr>node_at := ?h'\<rparr>"
    have set: "slot_set s (slot_after pre) (Some new) = Some ?s'"
      using False nb by (simp add: slot_after_def slot_set_def b_def)
    from ch pre have ch': "chain (node_at s) (child_' (payload s)) (ys @ b # post)" by simp
    from dist pre have "b \<notin> set ys" "b \<notin> set post" by auto
    moreover from new(3) pre have "b \<noteq> new" by auto
    ultimately have nin: "b \<notin> set ys" "b \<notin> set (new # post)" by auto
    from chain_relink [OF ch' nin nb tail]
    have "chain ?h' (child_' (payload s)) (pre @ new # post)"
      using pre by simp
    moreover have "\<forall>a. idx_at ?h' a = idx_at (node_at s) a"
      using nb by (simp add: idx_at_relink)
    moreover have "dom ?h' = dom (node_at s)"
      using nb by auto
    ultimately show ?thesis using set by simp
  qed
qed

lemma delete_unlinked_Node:
  assumes "node_at s a = Some nd" and "sibling_' nd = None"
  shows "delete_Node s a = Some (s\<lparr>node_at := (node_at s)(a := None)\<rparr>)"
  using assms by (subst delete_Node.simps) simp

lemma loop_found:
  assumes inv: "store_inv s as"
    and slot: "slot_before (node_at s) as (node_ptr_' it) (unat (current_idx_' it))"
    and new: "node_at s new = Some nd" "sibling_' nd = None"
    and b: "b \<in> set as" "idx_at (node_at s) b = unat (current_idx_' it)"
  shows "GetOrSpawnNode_loop s it new =
           Some (s\<lparr>node_at := (node_at s)(new := None)\<rparr>,
                 it\<lparr>node_' := Some b, node_ptr_' := SiblingSlot b\<rparr>, Some b)"
proof -
  from inv have asc: "ascending (node_at s) as" by (simp add: store_inv_def)
  from split_at_index [OF asc b]
  have "Actualize s it = Some (it\<lparr>node_' := Some b, node_ptr_' := SiblingSlot b\<rparr>, Some b)"
    using Actualize_spec [OF inv slot] b(2) by simp
  then show ?thesis
    using delete_unlinked_Node [OF new]
    by (subst GetOrSpawnNode_loop.simps) simp
qed

lemma loop_insert:
  assumes inv: "store_inv s as"
    and slot: "slot_before (node_at s) as (node_ptr_' it) (unat (current_idx_' it))"
    and new: "node_at s new = Some nd" "new \<notin> set as" "Index nd = current_idx_' it"
    and none: "\<forall>b\<in>set as. idx_at (node_at s) b \<noteq> unat (current_idx_' it)"
    and bound: "unat (current_idx_' it) < unat (num_edges_' (payload s))"
  shows "\<exists>s'. GetOrSpawnNode_loop s it new =
                 Some (s', it\<lparr>node_ptr_' := SiblingSlot new, node_' := Some new\<rparr>, Some new)
           \<and> store_inv s' (takeWhile (\<lambda>a. idx_at (node_at s) a < unat (current_idx_' it)) as
                            @ new # dropWhile (\<lambda>a. idx_at (node_at s) a < unat (current_idx_' it)) as)
           \<and> (\<forall>a. idx_at (node_at s') a = idx_at (node_at s) a)
           \<and> allocations s' = allocations s
           \<and> edges_' (payload s') = edges_' (payload s)
           \<and> num_edges_' (payload s') = num_edges_' (payload s)"
proof -
  let ?k = "unat (current_idx_' it)"
  let ?P = "\<lambda>a. idx_at (node_at s) a < ?k"
  define pre where "pre = takeWhile ?P as"
  define post where "post = dropWhile ?P as"
  have as: "as = pre @ post" by (simp add: pre_def post_def)
  from inv have ch: "chain (node_at s) (child_' (payload s)) as"
    and asc: "ascending (node_at s) as"
    and below: "\<forall>a\<in>set as. idx_at (node_at s) a < unat (num_edges_' (payload s))"
    and edges: "edges_wf (payload s)"
    and dom: "dom (node_at s) \<subseteq> {..<allocations s}"
    by (simp_all add: store_inv_def)
  have pre_lt: "\<forall>a\<in>set pre. idx_at (node_at s) a < ?k"
    by (auto simp: pre_def dest: set_takeWhileD)
  have post_gt: "\<forall>a\<in>set post. ?k < idx_at (node_at s) a"
  proof
    fix a assume a: "a \<in> set post"
    then have "a \<in> set as" by (auto simp: post_def dest: set_dropWhileD)
    with none have "idx_at (node_at s) a \<noteq> ?k" by simp
    moreover from dropWhile_all_above [OF asc] a have "?k \<le> idx_at (node_at s) a"
      by (simp add: post_def)
    ultimately show "?k < idx_at (node_at s) a" by simp
  qed
  define it1 where "it1 = it\<lparr>node_ptr_' := slot_after pre, node_' := None\<rparr>"
  have act: "Actualize s it = Some (it1, first_of post)"
  proof (cases "first_of post")
    case None
    with Actualize_spec [OF inv slot] show ?thesis
      by (simp add: it1_def pre_def post_def)
  next
    case (Some b)
    then have "b \<in> set post" by (auto simp: first_of_def split: list.splits)
    with post_gt have "idx_at (node_at s) b \<noteq> ?k" by auto
    with Some Actualize_spec [OF inv slot] show ?thesis
      by (simp add: it1_def pre_def post_def)
  qed
  define nd1 where "nd1 = nd\<lparr>sibling_' := first_of post\<rparr>"
  define s1 where "s1 = s\<lparr>node_at := (node_at s)(new \<mapsto> nd1)\<rparr>"
  have set1: "slot_set s (SiblingSlot new) (first_of post) = Some s1"
    using new(1) by (simp add: slot_set_def s1_def nd1_def)
  have idx1: "\<And>a. idx_at (node_at s1) a = idx_at (node_at s) a"
    using new(1) by (simp add: s1_def nd1_def idx_at_relink)
  have ch1: "chain (node_at s1) (child_' (payload s1)) (pre @ post)"
    using chain_frame_upd [OF ch new(2), of "Some nd1"] as by (simp add: s1_def)
  have get1: "slot_get s1 (slot_after pre) = Some (first_of post)"
    using ch1 by (rule slot_holds_rest)
  from asc have "distinct as" by (rule ascending_distinct)
  then have dist: "distinct (pre @ post)" by (simp only: as)
  have new1: "node_at s1 new = Some nd1" "sibling_' nd1 = first_of post"
    "new \<notin> set (pre @ post)"
    using new(2) as by (simp_all add: s1_def nd1_def)
  from link_between [OF ch1 dist new1] obtain s2 where
    set2: "slot_set s1 (slot_after pre) (Some new) = Some s2"
    and ch2: "chain (node_at s2) (child_' (payload s2)) (pre @ new # post)"
    and idx2: "\<forall>a. idx_at (node_at s2) a = idx_at (node_at s1) a"
    and dom2: "dom (node_at s2) = dom (node_at s1)"
    and alloc2: "allocations s2 = allocations s1"
    and edges2: "edges_' (payload s2) = edges_' (payload s1)"
    and num2: "num_edges_' (payload s2) = num_edges_' (payload s1)"
    by blast
  have cas: "compare_exchange s1 (slot_after pre) (first_of post) new = Some (s2, True)"
    using get1 set2 by (simp add: compare_exchange_def)
  have idx: "\<And>a. idx_at (node_at s2) a = idx_at (node_at s) a"
    using idx1 idx2 by simp
  have idx_new: "idx_at (node_at s) new = ?k"
    using new(1,3) by (simp add: idx_at_def)
  have asc2: "ascending (node_at s2) (pre @ new # post)"
  proof -
    have "ascending (node_at s) (pre @ new # post)"
      using asc as pre_lt post_gt idx_new
      by (auto simp: ascending_def sorted_wrt_append)
    moreover have "idx_at (node_at s2) = idx_at (node_at s)"
      using idx by (intro ext)
    ultimately show ?thesis by (simp add: ascending_def)
  qed
  have inv2: "store_inv s2 (pre @ new # post)"
    unfolding store_inv_def
  proof (intro conjI)
    show "chain (node_at s2) (child_' (payload s2)) (pre @ new # post)" by (fact ch2)
    show "ascending (node_at s2) (pre @ new # post)" by (fact asc2)
    show "\<forall>a\<in>set (pre @ new # post). idx_at (node_at s2) a < unat (num_edges_' (payload s2))"
      using below as idx idx_new bound num2 by (auto simp: s1_def)
    show "edges_wf (payload s2)"
      using edges edges2 num2 by (simp add: s1_def edges_wf_def split: option.splits)
    show "dom (node_at s2) \<subseteq> {..<allocations s2}"
      using dom dom2 alloc2 new(1) by (auto simp: s1_def)
  qed
  have slot2: "slot_before (node_at s2) (pre @ new # post) (node_ptr_' it1) (unat (current_idx_' it1))"
  proof (cases "pre = []")
    case True
    then show ?thesis by (simp add: it1_def slot_after_def slot_before_def)
  next
    case False
    then have "last pre \<in> set pre" by simp
    with pre_lt idx False show ?thesis
      by (simp add: it1_def slot_after_def slot_before_def)
  qed
  have tw2: "dropWhile (\<lambda>a. idx_at (node_at s2) a < unat (current_idx_' it1)) (pre @ new # post)
              = new # post"
    using pre_lt idx idx_new by (simp add: it1_def dropWhile_append2)
  have act2: "Actualize s2 it1 =
                Some (it\<lparr>node_ptr_' := SiblingSlot new, node_' := Some new\<rparr>, Some new)"
    using Actualize_spec [OF inv2 slot2] tw2 idx idx_new
    by (simp add: first_of_def it1_def)
  have "GetOrSpawnNode_loop s it new =
          Some (s2, it\<lparr>node_ptr_' := SiblingSlot new, node_' := Some new\<rparr>, Some new)"
    using act set1 cas act2
    by (subst GetOrSpawnNode_loop.simps) (simp add: it1_def)
  with inv2 idx alloc2 edges2 num2 show ?thesis
    by (auto simp: pre_def post_def s1_def)
qed

lemma fresh_address:
  assumes "store_inv s as"
  shows "node_at s (allocations s) = None" and "allocations s \<notin> set as"
proof -
  from assms have "dom (node_at s) \<subseteq> {..<allocations s}" by (simp add: store_inv_def)
  then show none: "node_at s (allocations s) = None" by auto
  from assms have "chain (node_at s) (child_' (payload s)) as"
    by (simp add: store_inv_def)
  then have "set as \<subseteq> dom (node_at s)" by (rule chain_live)
  with none show "allocations s \<notin> set as" by auto
qed

lemma store_inv_new_Node:
  assumes inv: "store_inv s as"
  shows "store_inv (fst (new_Node s edge k)) as"
proof -
  let ?new = "allocations s"
  let ?h1 = "(node_at s)(?new \<mapsto> Node_ctor edge k)"
  note fresh = fresh_address [OF inv]
  have idx: "\<And>a. a \<in> set as \<Longrightarrow> idx_at ?h1 a = idx_at (node_at s) a"
    using fresh(2) by (auto simp: idx_at_def)
  from inv have "chain ?h1 (child_' (payload s)) as"
    using chain_frame_upd [OF _ fresh(2)] by (simp add: store_inv_def)
  moreover from inv have "ascending ?h1 as"
    using ascending_cong [of as ?h1 "node_at s"] idx by (simp add: store_inv_def)
  moreover from inv have "\<forall>a\<in>set as. idx_at ?h1 a < unat (num_edges_' (payload s))"
    using idx by (simp add: store_inv_def)
  moreover from inv have "dom ?h1 \<subseteq> {..<Suc ?new}"
    by (auto simp: store_inv_def)
  ultimately show ?thesis using inv
    by (simp add: store_inv_def new_Node_def edges_wf_def split: option.splits)
qed

lemma GetOrSpawnNode_present:
  assumes "node_' it = Some a"
  shows "GetOrSpawnNode s it = Some (s, it, Some a)"
  using assms by (simp add: GetOrSpawnNode_def)

lemma GetOrSpawnNode_found:
  assumes inv: "store_inv s as" and it: "iter_inv s as it"
    and node: "node_' it = None"
    and edge: "GetEdgeAt (payload s) (current_idx_' it) = Some edge"
    and b: "b \<in> set as" "idx_at (node_at s) b = unat (current_idx_' it)"
  shows "GetOrSpawnNode s it =
           Some (s\<lparr>allocations := Suc (allocations s)\<rparr>,
                 it\<lparr>node_' := Some b, node_ptr_' := SiblingSlot b\<rparr>, Some b)"
proof -
  let ?new = "allocations s"
  let ?s1 = "fst (new_Node s edge (current_idx_' it))"
  note fresh = fresh_address [OF inv]
  have inv1: "store_inv ?s1 as" using inv by (rule store_inv_new_Node)
  have idx: "\<And>a. a \<in> set as \<Longrightarrow> idx_at (node_at ?s1) a = idx_at (node_at s) a"
    using fresh(2) by (auto simp: idx_at_def new_Node_def)
  from it node have "slot_before (node_at s) as (node_ptr_' it) (unat (current_idx_' it))"
    by (simp add: iter_inv_def)
  then have slot1: "slot_before (node_at ?s1) as (node_ptr_' it) (unat (current_idx_' it))"
    using idx by (auto simp: slot_before_def split: NodeSlot.splits)
  have new1: "node_at ?s1 ?new = Some (Node_ctor edge (current_idx_' it))"
    "sibling_' (Node_ctor edge (current_idx_' it)) = None"
    by (simp_all add: new_Node_def Node_ctor_def)
  have b1: "idx_at (node_at ?s1) b = unat (current_idx_' it)"
    using idx b by simp
  have restored: "(?s1)\<lparr>node_at := (node_at ?s1)(?new := None)\<rparr> = s\<lparr>allocations := Suc ?new\<rparr>"
  proof -
    from fresh(1) have "(node_at s)(?new := None) = node_at s"
      by (simp add: fun_upd_idem)
    then show ?thesis by (simp add: new_Node_def)
  qed
  from loop_found [OF inv1 slot1 new1 b(1) b1] restored
  show ?thesis using node edge
    by (simp add: GetOrSpawnNode_def new_Node_def)
qed

lemma GetOrSpawnNode_insert:
  assumes inv: "store_inv s as" and it: "iter_inv s as it"
    and node: "node_' it = None"
    and edge: "GetEdgeAt (payload s) (current_idx_' it) = Some edge"
    and none: "\<forall>b\<in>set as. idx_at (node_at s) b \<noteq> unat (current_idx_' it)"
  shows "\<exists>s'. GetOrSpawnNode s it =
                 Some (s', it\<lparr>node_ptr_' := SiblingSlot (allocations s),
                              node_' := Some (allocations s)\<rparr>, Some (allocations s))
           \<and> store_inv s' (takeWhile (\<lambda>a. idx_at (node_at s) a < unat (current_idx_' it)) as
                            @ allocations s
                            # dropWhile (\<lambda>a. idx_at (node_at s) a < unat (current_idx_' it)) as)
           \<and> (\<forall>a\<in>set as. idx_at (node_at s') a = idx_at (node_at s) a)
           \<and> idx_at (node_at s') (allocations s) = unat (current_idx_' it)
           \<and> allocations s' = Suc (allocations s)
           \<and> edges_' (payload s') = edges_' (payload s)
           \<and> num_edges_' (payload s') = num_edges_' (payload s)"
proof -
  let ?new = "allocations s"
  let ?k = "current_idx_' it"
  let ?s1 = "fst (new_Node s edge ?k)"
  note fresh = fresh_address [OF inv]
  have inv1: "store_inv ?s1 as" using inv by (rule store_inv_new_Node)
  have idx: "\<And>a. a \<in> set as \<Longrightarrow> idx_at (node_at ?s1) a = idx_at (node_at s) a"
    using fresh(2) by (auto simp: idx_at_def new_Node_def)
  from it node have "slot_before (node_at s) as (node_ptr_' it) (unat ?k)"
    by (simp add: iter_inv_def)
  then have slot1: "slot_before (node_at ?s1) as (node_ptr_' it) (unat ?k)"
    using idx by (auto simp: slot_before_def split: NodeSlot.splits)
  have new1: "node_at ?s1 ?new = Some (Node_ctor edge ?k)" "?new \<notin> set as"
    "Index (Node_ctor edge ?k) = ?k"
    using fresh(2) by (simp_all add: new_Node_def Node_ctor_def Index_def)
  have none1: "\<forall>b\<in>set as. idx_at (node_at ?s1) b \<noteq> unat ?k"
    using none idx by simp
  from inv have "edges_wf (payload s)"
    by (simp add: store_inv_def)
  with edge have "unat ?k < unat (num_edges_' (payload s))"
    by (auto simp: GetEdgeAt_def edges_wf_def split: option.splits if_splits)
  then have bound1: "unat ?k < unat (num_edges_' (payload ?s1))"
    by (simp add: new_Node_def)
  have tw: "takeWhile (\<lambda>a. idx_at (node_at ?s1) a < unat ?k) as
              = takeWhile (\<lambda>a. idx_at (node_at s) a < unat ?k) as"
    using idx by (auto intro: takeWhile_cong)
  have dw: "dropWhile (\<lambda>a. idx_at (node_at ?s1) a < unat ?k) as
              = dropWhile (\<lambda>a. idx_at (node_at s) a < unat ?k) as"
    using idx by (auto intro: dropWhile_cong)
  from loop_insert [OF inv1 slot1 new1 none1 bound1] obtain s' where
    loop: "GetOrSpawnNode_loop ?s1 it ?new =
             Some (s', it\<lparr>node_ptr_' := SiblingSlot ?new, node_' := Some ?new\<rparr>, Some ?new)"
    and inv': "store_inv s' (takeWhile (\<lambda>a. idx_at (node_at ?s1) a < unat ?k) as
                            @ ?new # dropWhile (\<lambda>a. idx_at (node_at ?s1) a < unat ?k) as)"
    and idx': "\<forall>a. idx_at (node_at s') a = idx_at (node_at ?s1) a"
    and rest: "allocations s' = allocations ?s1"
      "edges_' (payload s') = edges_' (payload ?s1)"
      "num_edges_' (payload s') = num_edges_' (payload ?s1)"
    by blast
  have "GetOrSpawnNode s it =
          Some (s', it\<lparr>node_ptr_' := SiblingSlot ?new, node_' := Some ?new\<rparr>, Some ?new)"
    using loop node edge by (simp add: GetOrSpawnNode_def new_Node_def)
  moreover have "idx_at (node_at s') ?new = unat ?k"
    using idx' new1(1,3) by (simp add: idx_at_def)
  moreover have "\<forall>a\<in>set as. idx_at (node_at s') a = idx_at (node_at s) a"
    using idx' idx by simp
  ultimately show ?thesis
    using inv' rest tw dw by (simp add: new_Node_def)
qed

lemma iter_inv_mono:
  assumes "iter_inv s as it" and "set as \<subseteq> set as'"
    and "\<forall>a\<in>set as. idx_at (node_at s') a = idx_at (node_at s) a"
    and "num_edges_' (payload s') = num_edges_' (payload s)"
  shows "iter_inv s' as' it"
  using assms
  by (auto simp: iter_inv_def slot_before_def split: option.splits NodeSlot.splits)

lemma Actualize_iter_inv:
  assumes inv: "store_inv s as"
    and slot: "slot_before (node_at s) as (node_ptr_' it) (unat (current_idx_' it))"
    and total: "total_count_' it = ucast (num_edges_' (payload s))"
    and range: "edge_' it \<noteq> None \<and> num_edges_' (payload s) \<noteq> 0
           \<longrightarrow> unat (current_idx_' it) < unat (num_edges_' (payload s))"
  shows "\<exists>it' node. Actualize s it = Some (it', node) \<and> iter_inv s as it'
           \<and> edge_' it' = edge_' it \<and> current_idx_' it' = current_idx_' it"
proof -
  let ?P = "\<lambda>a. idx_at (node_at s) a < unat (current_idx_' it)"
  have pre: "slot_before (node_at s) as (slot_after (takeWhile ?P as)) (unat (current_idx_' it))"
  proof (cases "takeWhile ?P as = []")
    case True
    then show ?thesis by (simp add: slot_after_def slot_before_def)
  next
    case False
    then have "last (takeWhile ?P as) \<in> set (takeWhile ?P as)" by simp
    then have "last (takeWhile ?P as) \<in> set as \<and> ?P (last (takeWhile ?P as))"
      by (auto dest: set_takeWhileD)
    with False show ?thesis by (simp add: slot_after_def slot_before_def)
  qed
  show ?thesis
  proof (cases "first_of (dropWhile ?P as)")
    case None
    with Actualize_spec [OF inv slot] pre total range show ?thesis
      by (simp add: iter_inv_def)
  next
    case (Some b)
    then have "b \<in> set (dropWhile ?P as)"
      by (auto simp: first_of_def split: list.splits)
    then have "b \<in> set as" by (rule set_dropWhileD)
    with Some Actualize_spec [OF inv slot] pre total range show ?thesis
      by (simp add: iter_inv_def)
  qed
qed

lemma Edge_Iterator_begin_inv:
  assumes inv: "store_inv s as"
  shows "\<exists>it. Edge_Iterator_begin s = Some it \<and> iter_inv s as it"
proof -
  define it0 :: Edge_Iterator where
    "it0 = \<lparr>edge_' = (case GetEdges (payload s) of None \<Rightarrow> None | Some es \<Rightarrow> Some 0),
            node_' = None, node_ptr_' = ChildSlot,
            current_idx_' = 0, total_count_' = ucast (GetNumEdges (payload s))\<rparr>"
  have slot: "slot_before (node_at s) as (node_ptr_' it0) (unat (current_idx_' it0))"
    by (simp add: it0_def slot_before_def)
  have total: "total_count_' it0 = ucast (num_edges_' (payload s))"
    by (simp add: it0_def GetNumEdges_def)
  have range: "edge_' it0 \<noteq> None \<and> num_edges_' (payload s) \<noteq> 0
           \<longrightarrow> unat (current_idx_' it0) < unat (num_edges_' (payload s))"
    by (simp add: it0_def unat_gt_0)
  show ?thesis
  proof (cases "edge_' it0 = None")
    case True
    then have "Edge_Iterator_begin s = Some it0"
      by (simp add: Edge_Iterator_begin_def it0_def Let_def)
    moreover have "iter_inv s as it0"
      using slot total range by (simp add: iter_inv_def it0_def)
    ultimately show ?thesis by blast
  next
    case False
    from Actualize_iter_inv [OF inv slot total range] obtain it' node where
      "Actualize s it0 = Some (it', node)" and "iter_inv s as it'" by blast
    with False show ?thesis
      by (simp add: Edge_Iterator_begin_def it0_def Let_def)
  qed
qed

lemma unat_ucast_8_16: "unat (ucast (n :: 8 word) :: 16 word) = unat n"
proof -
  have "unat n < 2 ^ 8" using unsigned_less [of n] by simp
  then have "unat n < 2 ^ 16" by simp
  then show ?thesis by (simp add: unsigned_ucast_eq take_bit_nat_eq_self)
qed

lemma unat_8_small: "unat (n :: 8 word) < 256"
  using unsigned_less [of n] by simp

lemma unat_succ_16:
  fixes k :: "16 word"
  assumes "unat k < 255"
  shows "unat (k + 1) = unat k + 1"
  using assms by (simp add: unat_word_ariths)

lemma Edge_Iterator_next_inv:
  assumes inv: "store_inv s as" and it: "iter_inv s as it"
    and nxt: "Edge_Iterator_next s it = Some it'"
  shows "iter_inv s as it'"
proof -
  let ?n = "num_edges_' (payload s)"
  let ?k = "current_idx_' it"
  from it have total: "total_count_' it = ucast ?n" by (simp add: iter_inv_def)
  from inv have below: "\<forall>a\<in>set as. idx_at (node_at s) a < unat ?n"
    by (simp add: store_inv_def)
  show ?thesis
  proof (cases "?k + 1 = total_count_' it")
    case True
    with nxt have it': "it' = it\<lparr>current_idx_' := ?k + 1, edge_' := None\<rparr>"
      by (auto simp: Edge_Iterator_next_def Let_def)
    from True total have k1: "unat (?k + 1) = unat ?n"
      by (simp add: unat_ucast_8_16)
    from it below show ?thesis
      unfolding it' iter_inv_def
      by (auto simp: k1 slot_before_def split: option.splits NodeSlot.splits intro: less_imp_le)
  next
    case False
    with nxt obtain j where edge: "edge_' it = Some j"
      and act: "map_option fst (Actualize s (it\<lparr>current_idx_' := ?k + 1, edge_' := Some (Suc j)\<rparr>))
                  = Some it'"
      by (auto simp: Edge_Iterator_next_def Let_def split: option.splits)
    let ?it2 = "it\<lparr>current_idx_' := ?k + 1, edge_' := Some (Suc j)\<rparr>"
    have step: "unat ?k < unat (?k + 1) \<and> unat (?k + 1) < unat ?n" if "?n \<noteq> 0"
    proof -
      from that it edge have lt: "unat ?k < unat ?n" by (simp add: iter_inv_def)
      with unat_8_small [of ?n] have "unat ?k < 255" by simp
      then have suc: "unat (?k + 1) = unat ?k + 1" by (rule unat_succ_16)
      from False total have "unat (?k + 1) \<noteq> unat ?n"
        by (simp add: word_unat_eq_iff unat_ucast_8_16)
      with suc lt show ?thesis by simp
    qed
    have nonzero: "\<And>a. a \<in> set as \<Longrightarrow> ?n \<noteq> 0"
      using below by (auto simp: unat_gt_0 [symmetric] simp del: unat_gt_0)
    have slot: "slot_before (node_at s) as (node_ptr_' ?it2) (unat (current_idx_' ?it2))"
    proof (cases "node_ptr_' it")
      case Indeterminate
      with it show ?thesis
        by (auto simp: iter_inv_def slot_before_def split: option.splits)
    next
      case ChildSlot
      then show ?thesis by (simp add: slot_before_def)
    next
      case (SiblingSlot a)
      with it have a: "a \<in> set as" "idx_at (node_at s) a \<le> unat ?k"
        by (auto simp: iter_inv_def slot_before_def split: option.splits)
      from step [OF nonzero [OF a(1)]] a SiblingSlot show ?thesis
        by (simp add: slot_before_def)
    qed
    have total2: "total_count_' ?it2 = ucast ?n" using total by simp
    have range2: "edge_' ?it2 \<noteq> None \<and> ?n \<noteq> 0 \<longrightarrow> unat (current_idx_' ?it2) < unat ?n"
      using step by auto
    from Actualize_iter_inv [OF inv slot total2 range2] act show ?thesis
      by auto
  qed
qed

lemma GetOrSpawnNode_inv:
  assumes inv: "store_inv s as" and its: "\<forall>it\<in>set its. iter_inv s as it"
    and i: "i < length its"
    and call: "GetOrSpawnNode s (its ! i) = Some (s', it', r)"
  shows "\<exists>as'. store_inv s' as' \<and> (\<forall>it\<in>set (its[i := it']). iter_inv s' as' it)"
proof -
  let ?it = "its ! i"
  let ?k = "unat (current_idx_' ?it)"
  from its i have it: "iter_inv s as ?it" by simp
  have upd: "\<And>s' as' it'. \<lbrakk>\<forall>x\<in>set its. iter_inv s' as' x; iter_inv s' as' it'\<rbrakk>
               \<Longrightarrow> \<forall>x\<in>set (its[i := it']). iter_inv s' as' x"
    by (metis insert_iff set_update_subset_insert subsetD)
  show ?thesis
  proof (cases "node_' ?it")
    case (Some a)
    with call have "s' = s" "it' = ?it"
      by (simp_all add: GetOrSpawnNode_present)
    with inv its i show ?thesis
      by (auto simp: list_update_same_conv)
  next
    case None
    with call obtain edge where edge: "GetEdgeAt (payload s) (current_idx_' ?it) = Some edge"
      by (auto simp: GetOrSpawnNode_def split: option.splits)
    show ?thesis
    proof (cases "\<exists>b\<in>set as. idx_at (node_at s) b = ?k")
      case True
      then obtain b where b: "b \<in> set as" "idx_at (node_at s) b = ?k" by blast
      from GetOrSpawnNode_found [OF inv it None edge b] call
      have s': "s' = s\<lparr>allocations := Suc (allocations s)\<rparr>"
        and it': "it' = ?it\<lparr>node_' := Some b, node_ptr_' := SiblingSlot b\<rparr>"
        by simp_all
      from inv have inv': "store_inv s' as"
        by (auto simp: store_inv_def s')
      have mono: "\<forall>x\<in>set its. iter_inv s' as x"
        using its by (auto intro: iter_inv_mono simp: s')
      have "iter_inv s' as it'"
        using it b by (simp add: iter_inv_def it' s')
      with inv' mono show ?thesis using upd by blast
    next
      case False
      then have none: "\<forall>b\<in>set as. idx_at (node_at s) b \<noteq> ?k" by blast
      let ?new = "allocations s"
      let ?as' = "takeWhile (\<lambda>a. idx_at (node_at s) a < ?k) as
                    @ ?new # dropWhile (\<lambda>a. idx_at (node_at s) a < ?k) as"
      from GetOrSpawnNode_insert [OF inv it None edge none] call
      have it': "it' = ?it\<lparr>node_ptr_' := SiblingSlot ?new, node_' := Some ?new\<rparr>"
        and inv': "store_inv s' ?as'"
        and idx: "\<forall>a\<in>set as. idx_at (node_at s') a = idx_at (node_at s) a"
        and idx_new: "idx_at (node_at s') ?new = ?k"
        and num: "num_edges_' (payload s') = num_edges_' (payload s)"
        by auto
      have "set as = set (takeWhile (\<lambda>a. idx_at (node_at s) a < ?k) as)
                       \<union> set (dropWhile (\<lambda>a. idx_at (node_at s) a < ?k) as)"
        by (metis set_append takeWhile_dropWhile_id)
      then have sub: "set as \<subseteq> set ?as'" by auto
      have mono: "\<forall>x\<in>set its. iter_inv s' ?as' x"
      proof
        fix x assume "x \<in> set its"
        with its have "iter_inv s as x" by simp
        from iter_inv_mono [OF this sub idx num] show "iter_inv s' ?as' x" .
      qed
      have "iter_inv s' ?as' it'"
        using it idx_new num by (simp add: iter_inv_def it')
      with inv' mono show ?thesis using upd by blast
    qed
  qed
qed

lemma do_call_inv:
  assumes "sys_inv sys" and "do_call sys c = Some sys'"
  shows "sys_inv sys'"
proof -
  from assms(1) obtain as where inv: "store_inv (store sys) as"
    and its: "\<forall>it\<in>set (iterators sys). iter_inv (store sys) as it"
    by (auto simp: sys_inv_def)
  show ?thesis
  proof (cases c)
    case CallEdges
    with assms(2) obtain it where "Edge_Iterator_begin (store sys) = Some it"
      and sys': "sys' = sys\<lparr>iterators := iterators sys @ [it]\<rparr>"
      by (auto simp: do_call_def)
    with Edge_Iterator_begin_inv [OF inv] have "iter_inv (store sys) as it" by auto
    with inv its show ?thesis
      unfolding sys_inv_def sys' by auto
  next
    case (CallNext i)
    with assms(2) obtain it where i: "i < length (iterators sys)"
      and nxt: "Edge_Iterator_next (store sys) (iterators sys ! i) = Some it"
      and sys': "sys' = sys\<lparr>iterators := (iterators sys)[i := it]\<rparr>"
      by (auto simp: do_call_def split: if_splits)
    from its i have "iter_inv (store sys) as (iterators sys ! i)" by simp
    from Edge_Iterator_next_inv [OF inv this nxt]
    have "\<forall>x\<in>set ((iterators sys)[i := it]). iter_inv (store sys) as x"
      using its by (metis insert_iff set_update_subset_insert subsetD)
    with inv show ?thesis
      unfolding sys_inv_def sys' by auto
  next
    case (CallGetOrSpawnNode i)
    with assms(2) obtain s' it r where i: "i < length (iterators sys)"
      and call: "GetOrSpawnNode (store sys) (iterators sys ! i) = Some (s', it, r)"
      and sys': "sys' = \<lparr>store = s', iterators = (iterators sys)[i := it]\<rparr>"
      by (auto simp: do_call_def split: if_splits)
    from GetOrSpawnNode_inv [OF inv its i call] show ?thesis
      unfolding sys_inv_def sys' by simp
  qed
qed

lemma do_calls_inv:
  assumes "sys_inv sys" and "do_calls sys cs = Some sys'"
  shows "sys_inv sys'"
  using assms
proof (induction cs arbitrary: sys)
  case Nil
  then show ?case by simp
next
  case (Cons c cs)
  from Cons.prems(2) obtain sys1 where one: "do_call sys c = Some sys1"
    and rest: "do_calls sys1 cs = Some sys'"
    by (auto split: bind_splits)
  from do_call_inv [OF Cons.prems(1) one] rest show ?case
    by (rule Cons.IH)
qed

lemma distinct_of_comp: "distinct (map (\<lambda>x. g (f x)) xs) \<Longrightarrow> distinct (map f xs)"
  by (induction xs) auto

lemma idx_at_live: "h a = Some nd \<Longrightarrow> idx_at h a = unat (Index nd)"
  by (simp add: idx_at_def)

lemma chain_indices:
  assumes "chain h p as"
  shows "map (\<lambda>nd. unat (Index nd)) (map (\<lambda>a. the (h a)) as) = map (idx_at h) as"
proof -
  from assms have "set as \<subseteq> dom h" by (rule chain_live)
  then have "\<And>a. a \<in> set as \<Longrightarrow> unat (Index (the (h a))) = idx_at h a"
    by (auto simp: idx_at_def)
  then show ?thesis by simp
qed

lemma store_inv_sorted:
  assumes "store_inv s as"
  shows "child_list s = Some (map (\<lambda>a. the (node_at s a)) as)"
    and "child_list_sorted s"
proof -
  from assms have ch: "chain (node_at s) (child_' (payload s)) as"
    and asc: "ascending (node_at s) as"
    and below: "\<forall>a\<in>set as. idx_at (node_at s) a < unat (num_edges_' (payload s))"
    by (simp_all add: store_inv_def)
  let ?nds = "map (\<lambda>a. the (node_at s a)) as"
  show list: "child_list s = Some ?nds"
    using nodes_from_chain [OF ch] by (simp add: child_list_def)
  have idx: "map (\<lambda>nd. unat (Index nd)) ?nds = map (idx_at (node_at s)) as"
    using ch by (rule chain_indices)
  from asc have "sorted_wrt (<) (map (idx_at (node_at s)) as)"
    by (simp add: ascending_def)
  then have sorted: "sorted_wrt (<) (map (\<lambda>nd. unat (Index nd)) ?nds)"
    by (simp only: idx)
  then have "distinct (map (\<lambda>nd. unat (Index nd)) ?nds)"
    by (simp add: strict_sorted_iff)
  then have dist: "distinct (map Index ?nds)" by (rule distinct_of_comp)
  from chain_live [OF ch] have "\<And>a. a \<in> set as \<Longrightarrow> unat (Index (the (node_at s a))) = idx_at (node_at s) a"
    by (auto simp: idx_at_def)
  with below have "list_all (\<lambda>nd. unat (Index nd) < unat (GetNumEdges (payload s))) ?nds"
    by (simp add: list_all_iff GetNumEdges_def)
  with list sorted dist show "child_list_sorted s"
    by (simp add: child_list_sorted_def)
qed

lemma store_wf_inv:
  assumes "store_wf s"
  shows "\<exists>as. store_inv s as"
proof -
  from assms obtain nds where list: "child_list s = Some nds"
    and sorted: "sorted_wrt (<) (map (\<lambda>nd. unat (Index nd)) nds)"
    and below: "list_all (\<lambda>nd. unat (Index nd) < unat (GetNumEdges (payload s))) nds"
    by (auto simp: store_wf_def child_list_sorted_def split: option.splits)
  from list have "nodes_from (node_at s) (child_' (payload s)) = Some nds"
    by (simp add: child_list_def)
  from chain_of_nodes_from [OF this]
  obtain as where ch: "chain (node_at s) (child_' (payload s)) as"
    and nds: "nds = map (\<lambda>a. the (node_at s a)) as"
    by blast
  have idx: "map (\<lambda>nd. unat (Index nd)) nds = map (idx_at (node_at s)) as"
    unfolding nds using ch by (rule chain_indices)
  from chain_live [OF ch] have "\<And>a. a \<in> set as \<Longrightarrow> unat (Index (the (node_at s a))) = idx_at (node_at s) a"
    by (auto simp: idx_at_def)
  with below have "\<forall>a\<in>set as. idx_at (node_at s) a < unat (num_edges_' (payload s))"
    by (simp add: list_all_iff nds GetNumEdges_def)
  moreover from sorted have "ascending (node_at s) as"
    by (simp only: idx ascending_def)
  ultimately have "store_inv s as"
    using ch assms by (simp add: store_inv_def store_wf_def)
  then show ?thesis ..
qed

lemma reachable_inv:
  assumes "store_wf s" and "do_calls \<lparr>store = s, iterators = []\<rparr> cs = Some sys"
  shows "sys_inv sys"
proof -
  from store_wf_inv [OF assms(1)] have "sys_inv \<lparr>store = s, iterators = []\<rparr>"
    by (simp add: sys_inv_def)
  then show ?thesis using assms(2) by (rule do_calls_inv)
qed

lemma GetOrSpawnNode_total:
  assumes inv: "store_inv s as" and it: "iter_inv s as it"
    and range: "unat (current_idx_' it) < unat (num_edges_' (payload s))"
  shows "\<exists>s' it' a as'. GetOrSpawnNode s it = Some (s', it', Some a)
           \<and> store_inv s' as' \<and> a \<in> set as'
           \<and> idx_at (node_at s') a = unat (current_idx_' it)"
proof (cases "node_' it")
  case (Some a)
  with it range have "a \<in> set as" "idx_at (node_at s) a = unat (current_idx_' it)"
    by (auto simp: iter_inv_def)
  with inv GetOrSpawnNode_present [OF Some] show ?thesis by blast
next
  case None
  from inv have "edges_wf (payload s)" by (simp add: store_inv_def)
  with range obtain edge where edge: "GetEdgeAt (payload s) (current_idx_' it) = Some edge"
    by (auto simp: edges_wf_def GetEdgeAt_def split: option.splits)
  show ?thesis
  proof (cases "\<exists>b\<in>set as. idx_at (node_at s) b = unat (current_idx_' it)")
    case True
    then obtain b where b: "b \<in> set as" "idx_at (node_at s) b = unat (current_idx_' it)"
      by blast
    from inv have "store_inv (s\<lparr>allocations := Suc (allocations s)\<rparr>) as"
      by (auto simp: store_inv_def)
    with GetOrSpawnNode_found [OF inv it None edge b] b show ?thesis
      by (intro exI [of _ "s\<lparr>allocations := Suc (allocations s)\<rparr>"] exI [of _ b] exI [of _ as]
          exI [of _ "it\<lparr>node_' := Some b, node_ptr_' := SiblingSlot b\<rparr>"]) simp
  next
    case False
    then have none: "\<forall>b\<in>set as. idx_at (node_at s) b \<noteq> unat (current_idx_' it)" by blast
    from GetOrSpawnNode_insert [OF inv it None edge none] show ?thesis
      by (elim exE conjE) (intro exI conjI, assumption, assumption, simp_all)
  qed
qed

text \<open>
  Claim C1.  Start from any store whose child list is strictly ascending in index,
  with every index below the number of edges, and let iterators over the payload be
  created, advanced and asked for their node (\<^verbatim>\<open>GetOrSpawnNode\<close>) in any order, any number
  of times.  After every such sequence of calls the child list is strictly ascending in
  index, no index appears twice and every index is below \<^verbatim>\<open>num_edges_\<close>.  Moreover
  \<^verbatim>\<open>GetOrSpawnNode\<close> on any of the iterators whose index is below \<^verbatim>\<open>num_edges_\<close>
  returns a node of the child list that carries the iterator's index.
\<close>

theorem child_list_stays_sorted:
  assumes "store_wf s" and "do_calls \<lparr>store = s, iterators = []\<rparr> cs = Some sys"
  shows "(\<exists>nds. child_list (store sys) = Some nds
            \<and> sorted_wrt (<) (map (\<lambda>nd. unat (Index nd)) nds)
            \<and> distinct (map Index nds)
            \<and> (\<forall>nd\<in>set nds. unat (Index nd) < unat (GetNumEdges (payload (store sys)))))
         \<and> (\<forall>i<length (iterators sys).
              unat (current_idx_' (iterators sys ! i)) < unat (GetNumEdges (payload (store sys)))
              \<longrightarrow> (\<exists>s' it' a nd nds'.
                     GetOrSpawnNode (store sys) (iterators sys ! i) = Some (s', it', Some a)
                     \<and> node_at s' a = Some nd
                     \<and> Index nd = current_idx_' (iterators sys ! i)
                     \<and> child_list s' = Some nds' \<and> nd \<in> set nds'))"
proof -
  from reachable_inv [OF assms] obtain as where inv: "store_inv (store sys) as"
    and its: "\<forall>it\<in>set (iterators sys). iter_inv (store sys) as it"
    by (auto simp: sys_inv_def)
  from store_inv_sorted(2) [OF inv]
  have first: "\<exists>nds. child_list (store sys) = Some nds
            \<and> sorted_wrt (<) (map (\<lambda>nd. unat (Index nd)) nds)
            \<and> distinct (map Index nds)
            \<and> (\<forall>nd\<in>set nds. unat (Index nd) < unat (GetNumEdges (payload (store sys))))"
    by (auto simp: child_list_sorted_def list_all_iff split: option.splits)
  have second: "\<exists>s' it' a nd nds'.
                     GetOrSpawnNode (store sys) (iterators sys ! i) = Some (s', it', Some a)
                     \<and> node_at s' a = Some nd
                     \<and> Index nd = current_idx_' (iterators sys ! i)
                     \<and> child_list s' = Some nds' \<and> nd \<in> set nds'"
    if i: "i < length (iterators sys)"
      and range: "unat (current_idx_' (iterators sys ! i)) < unat (GetNumEdges (payload (store sys)))"
    for i
  proof -
    from its i have it: "iter_inv (store sys) as (iterators sys ! i)" by simp
    from range have "unat (current_idx_' (iterators sys ! i)) < unat (num_edges_' (payload (store sys)))"
      by (simp add: GetNumEdges_def)
    from GetOrSpawnNode_total [OF inv it this] obtain s' it' a as' where
      call: "GetOrSpawnNode (store sys) (iterators sys ! i) = Some (s', it', Some a)"
      and inv': "store_inv s' as'" and a: "a \<in> set as'"
      and idx: "idx_at (node_at s') a = unat (current_idx_' (iterators sys ! i))"
      by blast
    from inv' have "chain (node_at s') (child_' (payload s')) as'"
      by (simp add: store_inv_def)
    then have "set as' \<subseteq> dom (node_at s')" by (rule chain_live)
    with a obtain nd where nd: "node_at s' a = Some nd" by auto
    with idx have "Index nd = current_idx_' (iterators sys ! i)"
      by (simp add: idx_at_def word_unat_eq_iff)
    moreover from store_inv_sorted(1) [OF inv'] a nd
    have "child_list s' = Some (map (\<lambda>a. the (node_at s' a)) as')"
      "nd \<in> set (map (\<lambda>a. the (node_at s' a)) as')"
      by force+
    ultimately show ?thesis using call nd by blast
  qed
  from first second show ?thesis by blast
qed

lemma empty_store_wf: "store_wf empty_store"
  by (simp add: store_wf_def child_list_sorted_def child_list_def nodes_from.simps
      empty_store_def three_edges_def edges_wf_def)

lemma scenario_run: "map_option (\<lambda>sys. map_option (map Index) (child_list (store sys)))
               (do_calls \<lparr>store = empty_store, iterators = []\<rparr> scenario_calls)
             = Some (Some [0, 1, 2])"
  by (simp add: scenario_calls_def do_call_def empty_store_def three_edges_def
      Edge_Iterator_begin_def Edge_Iterator_next_def GetOrSpawnNode_def Actualize_def
      Actualize_loop.simps GetOrSpawnNode_loop.simps slot_get_def slot_set_def
      compare_exchange_def new_Node_def Node_ctor_def GetEdgeAt_def GetEdges_def GetNumEdges_def
      Index_def child_list_def nodes_from.simps Let_def)

theorem child_list_stays_sorted_witness:
  "store_wf empty_store
   \<and> (\<exists>sys. do_calls \<lparr>store = empty_store, iterators = []\<rparr> scenario_calls = Some sys
          \<and> map_option (map Index) (child_list (store sys)) = Some [0, 1, 2]
          \<and> (\<exists>nds. child_list (store sys) = Some nds
                 \<and> sorted_wrt (<) (map (\<lambda>nd. unat (Index nd)) nds)
                 \<and> distinct (map Index nds)))"
proof -
  from scenario_run obtain sys :: System where
    run: "do_calls \<lparr>store = empty_store, iterators = []\<rparr> scenario_calls = Some sys"
    and list: "map_option (map Index) (child_list (store sys)) = Some [0, 1, 2]"
    by auto
  from child_list_stays_sorted [OF empty_store_wf run, THEN conjunct1]
  obtain nds where "child_list (store sys) = Some nds"
    and "sorted_wrt (<) (map (\<lambda>nd. unat (Index nd)) nds)"
    and "distinct (map Index nds)"
    by (elim exE conjE)
  then have "\<exists>nds. child_list (store sys) = Some nds
                 \<and> sorted_wrt (<) (map (\<lambda>nd. unat (Index nd)) nds)
                 \<and> distinct (map Index nds)"
    by (intro exI conjI)
  with run list have "\<exists>sys. do_calls \<lparr>store = empty_store, iterators = []\<rparr> scenario_calls = Some sys
          \<and> map_option (map Index) (child_list (store sys)) = Some [0, 1, 2]
          \<and> (\<exists>nds. child_list (store sys) = Some nds
                 \<and> sorted_wrt (<) (map (\<lambda>nd. unat (Index nd)) nds)
                 \<and> distinct (map Index nds))"
    by (intro exI [of _ sys] conjI)
  with empty_store_wf show ?thesis by (rule conjI)
qed

lemma one_with_index:
  assumes "distinct (map f xs)" and "x \<in> set xs" and "f x = k"
  shows "length (filter (\<lambda>y. f y = k) xs) = 1"
  using assms
proof (induction xs)
  case Nil
  then show ?case by simp
next
  case (Cons y ys)
  show ?case
  proof (cases "f y = k")
    case True
    with Cons.prems have "\<forall>z\<in>set ys. f z \<noteq> k" by (auto simp: image_iff)
    then have "filter (\<lambda>y. f y = k) ys = []" by (simp add: filter_empty_conv)
    with True show ?thesis by simp
  next
    case False
    with Cons.prems have "x \<in> set ys" "distinct (map f ys)" by auto
    from Cons.IH [OF this(2,1) Cons.prems(3)] False show ?thesis by simp
  qed
qed

lemma no_node_yet:
  assumes inv: "store_inv s as" and it: "iter_inv s as it"
    and range: "unat (current_idx_' it) < unat (num_edges_' (payload s))"
    and none: "\<forall>b\<in>set as. idx_at (node_at s) b \<noteq> unat (current_idx_' it)"
  shows "node_' it = None"
proof (cases "node_' it")
  case None
  then show ?thesis .
next
  case (Some a)
  with it range have "a \<in> set as" "idx_at (node_at s) a = unat (current_idx_' it)"
    by (auto simp: iter_inv_def)
  with none show ?thesis by blast
qed

lemma two_spawns_same_index:
  assumes inv: "store_inv s as" and iti: "iter_inv s as it_i" and itj: "iter_inv s as it_j"
    and same: "current_idx_' it_j = current_idx_' it_i"
    and range: "unat (current_idx_' it_i) < unat (num_edges_' (payload s))"
    and none: "\<forall>b\<in>set as. idx_at (node_at s) b \<noteq> unat (current_idx_' it_i)"
  shows "\<exists>s1 nds.
           GetOrSpawnNode s it_i =
             Some (s1, it_i\<lparr>node_ptr_' := SiblingSlot (allocations s),
                            node_' := Some (allocations s)\<rparr>, Some (allocations s))
           \<and> allocations s1 = Suc (allocations s)
           \<and> GetOrSpawnNode s1 it_j =
               Some (s1\<lparr>allocations := Suc (Suc (allocations s))\<rparr>,
                     it_j\<lparr>node_' := Some (allocations s),
                          node_ptr_' := SiblingSlot (allocations s)\<rparr>, Some (allocations s))
           \<and> node_at s1 (Suc (allocations s)) = None
           \<and> child_list s1 = Some nds
           \<and> length (filter (\<lambda>nd. Index nd = current_idx_' it_i) nds) = 1"
proof -
  let ?new = "allocations s"
  let ?k = "unat (current_idx_' it_i)"
  let ?as' = "takeWhile (\<lambda>a. idx_at (node_at s) a < ?k) as
                @ ?new # dropWhile (\<lambda>a. idx_at (node_at s) a < ?k) as"
  have ni: "node_' it_i = None" using inv iti range none by (rule no_node_yet)
  have nj: "node_' it_j = None" using inv itj range none
    by (intro no_node_yet [of s as it_j]) (simp_all add: same)
  from inv have ewf: "edges_wf (payload s)" by (simp add: store_inv_def)
  with range obtain edge where edge: "GetEdgeAt (payload s) (current_idx_' it_i) = Some edge"
    by (auto simp: edges_wf_def GetEdgeAt_def split: option.splits)
  from GetOrSpawnNode_insert [OF inv iti ni edge none] obtain s1 where
    call1: "GetOrSpawnNode s it_i =
             Some (s1, it_i\<lparr>node_ptr_' := SiblingSlot ?new, node_' := Some ?new\<rparr>, Some ?new)"
    and inv1: "store_inv s1 ?as'"
    and idx: "\<forall>a\<in>set as. idx_at (node_at s1) a = idx_at (node_at s) a"
    and idx_new: "idx_at (node_at s1) ?new = ?k"
    and alloc1: "allocations s1 = Suc ?new"
    and edges1: "edges_' (payload s1) = edges_' (payload s)"
    and num1: "num_edges_' (payload s1) = num_edges_' (payload s)"
    by (elim exE conjE)
  have "set as = set (takeWhile (\<lambda>a. idx_at (node_at s) a < ?k) as)
                   \<union> set (dropWhile (\<lambda>a. idx_at (node_at s) a < ?k) as)"
    by (metis set_append takeWhile_dropWhile_id)
  then have sub: "set as \<subseteq> set ?as'" by auto
  from iter_inv_mono [OF itj sub idx num1] have itj1: "iter_inv s1 ?as' it_j" .
  have edge1: "GetEdgeAt (payload s1) (current_idx_' it_j) = Some edge"
    using edge edges1 by (simp add: GetEdgeAt_def same)
  have new_in: "?new \<in> set ?as'" by simp
  have idx_j: "idx_at (node_at s1) ?new = unat (current_idx_' it_j)"
    using idx_new by (simp add: same)
  from GetOrSpawnNode_found [OF inv1 itj1 nj edge1 new_in idx_j]
  have call2: "GetOrSpawnNode s1 it_j =
               Some (s1\<lparr>allocations := Suc (Suc ?new)\<rparr>,
                     it_j\<lparr>node_' := Some ?new, node_ptr_' := SiblingSlot ?new\<rparr>, Some ?new)"
    by (simp add: alloc1)
  from fresh_address(1) [OF inv1] have unused: "node_at s1 (Suc ?new) = None"
    by (simp add: alloc1)
  let ?nds = "map (\<lambda>a. the (node_at s1 a)) ?as'"
  from store_inv_sorted [OF inv1] have list: "child_list s1 = Some ?nds"
    and "child_list_sorted s1" by simp_all
  then have dist: "distinct (map Index ?nds)"
    by (simp add: child_list_sorted_def)
  from inv1 have "chain (node_at s1) (child_' (payload s1)) ?as'"
    by (simp add: store_inv_def)
  from chain_live [OF this] new_in obtain nd where nd: "node_at s1 ?new = Some nd"
    by blast
  with idx_new have "Index nd = current_idx_' it_i"
    by (simp add: idx_at_def word_unat_eq_iff)
  moreover from nd new_in have "nd \<in> set ?nds" by force
  ultimately have "length (filter (\<lambda>nd. Index nd = current_idx_' it_i) ?nds) = 1"
    using dist by (intro one_with_index [of Index ?nds nd])
  with call1 alloc1 call2 unused list show ?thesis
    by (intro exI [of _ s1] exI [of _ ?nds] conjI)
qed





section \<open>Calls step by step: what a step keeps\<close>


















lemma store_inv_unique: "store_inv s as \<Longrightarrow> store_inv s bs \<Longrightarrow> as = bs"
  by (auto simp: store_inv_def dest: chain_unique)














section \<open>A call is the run of its steps\<close>

lemma solo_Idle: "solo n s (Idle it) = Some (s, Idle it)"
  by (cases n) simp_all

lemma Actualize_onward:
  assumes "Actualize_load s it = Some (Onward slot)"
  shows "Actualize s it = Actualize s (it\<lparr>node_ptr_' := slot\<rparr>)"
proof -
  from assms obtain a nd where get: "slot_get s (node_ptr_' it) = Some (Some a)"
    and nd: "node_at s a = Some nd" and lt: "Index nd < current_idx_' it"
    and slot: "slot = SiblingSlot a"
    by (auto simp: Actualize_load_def split: option.splits if_splits)
  from get nd lt have "Actualize_loop s (node_ptr_' it) (current_idx_' it)
      = Actualize_loop s (SiblingSlot a) (current_idx_' it)"
    by (subst Actualize_loop.simps) simp
  then show ?thesis
    by (simp add: Actualize_def slot split: option.splits)
qed

lemma Actualize_arrived:
  assumes "Actualize_load s it = Some (Arrived node)"
  shows "Actualize s it = map_option (\<lambda>it1. (it1, node)) (Actualize_finish s it node)"
proof -
  from assms have "Actualize_loop s (node_ptr_' it) (current_idx_' it) = Some (node_ptr_' it, node)"
    by (subst Actualize_loop.simps)
      (auto simp: Actualize_load_def split: option.splits if_splits)
  then show ?thesis
    by (simp add: Actualize_def Actualize_finish_def split: option.splits)
qed

lemma walk_to_Actualize:
  assumes "solo n s (InActualize caller it) = Some (sf, Idle itf)"
  shows "\<exists>it1 node m. Actualize s it = Some (it1, node) \<and> m < n
           \<and> Option.bind (resume s caller it1 node) (\<lambda>(s', t'). solo m s' t') = Some (sf, Idle itf)"
  using assms
proof (induction n arbitrary: it)
  case 0
  then show ?case by simp
next
  case (Suc n)
  from Suc.prems obtain s1 t1 where step: "thread_step s (InActualize caller it) = Some (s1, t1)"
    and rest: "solo n s1 t1 = Some (sf, Idle itf)"
    by (auto split: bind_splits)
  from step obtain w where load: "Actualize_load s it = Some w"
    by (auto simp: thread_step_def split: option.splits)
  show ?case
  proof (cases w)
    case (Onward slot)
    with step load have "s1 = s" "t1 = InActualize caller (it\<lparr>node_ptr_' := slot\<rparr>)"
      by (simp_all add: thread_step_def)
    with rest Suc.IH [of "it\<lparr>node_ptr_' := slot\<rparr>"] obtain it1 node m where
      "Actualize s (it\<lparr>node_ptr_' := slot\<rparr>) = Some (it1, node)" "m < n"
      "Option.bind (resume s caller it1 node) (\<lambda>(s', t'). solo m s' t') = Some (sf, Idle itf)"
      by blast
    moreover from load Onward have "Actualize s it = Actualize s (it\<lparr>node_ptr_' := slot\<rparr>)"
      by (simp add: Actualize_onward)
    ultimately have "Actualize s it = Some (it1, node) \<and> m < Suc n
           \<and> Option.bind (resume s caller it1 node) (\<lambda>(s', t'). solo m s' t') = Some (sf, Idle itf)"
      by simp
    then show ?thesis by blast
  next
    case (Arrived node)
    with step load obtain it1 where fin: "Actualize_finish s it node = Some it1"
      and res: "resume s caller it1 node = Some (s1, t1)"
      by (auto simp: thread_step_def split: option.splits)
    from load Arrived fin have "Actualize s it = Some (it1, node)"
      by (simp add: Actualize_arrived)
    with res rest have "Actualize s it = Some (it1, node) \<and> n < Suc n
           \<and> Option.bind (resume s caller it1 node) (\<lambda>(s', t'). solo n s' t') = Some (sf, Idle itf)"
      by simp
    then show ?thesis by blast
  qed
qed

lemma Actualize_to_walk:
  assumes "Actualize_loop s slot k = Some y"
  shows "\<forall>it. node_ptr_' it = slot \<and> current_idx_' it = k \<longrightarrow>
           (\<exists>n. \<forall>caller m. solo (n + Suc m) s (InActualize caller it) =
              Option.bind (thread_step s (InActualize caller (it\<lparr>node_ptr_' := fst y\<rparr>)))
                (\<lambda>(s', t'). solo m s' t')
              \<and> Actualize_load s (it\<lparr>node_ptr_' := fst y\<rparr>) = Some (Arrived (snd y)))"
  using assms
proof (induction s slot k y rule: Actualize_loop.raw_induct [rotated, consumes 1])
  case (1 loop s slot k y)
  obtain slot' node where y: "y = (slot', node)" by (cases y)
  note body = 1(2) [unfolded y]
  show ?case
    unfolding y fst_conv snd_conv
  proof (intro allI impI)
    fix it :: Edge_Iterator
    assume it: "node_ptr_' it = slot \<and> current_idx_' it = k"
    from body obtain cur where get: "slot_get s slot = Some cur"
      by (auto split: option.splits)
    have stay: "\<exists>n. \<forall>caller m. solo (n + Suc m) s (InActualize caller it) =
              Option.bind (thread_step s (InActualize caller (it\<lparr>node_ptr_' := slot'\<rparr>)))
                (\<lambda>(s', t'). solo m s' t')
              \<and> Actualize_load s (it\<lparr>node_ptr_' := slot'\<rparr>) = Some (Arrived node)"
      if here: "slot' = slot" and load: "Actualize_load s it = Some (Arrived node)"
    proof -
      from it here have same: "it\<lparr>node_ptr_' := slot'\<rparr> = it" by simp
      have "\<forall>caller m. solo (0 + Suc m) s (InActualize caller it) =
              Option.bind (thread_step s (InActualize caller (it\<lparr>node_ptr_' := slot'\<rparr>)))
                (\<lambda>(s', t'). solo m s' t')
              \<and> Actualize_load s (it\<lparr>node_ptr_' := slot'\<rparr>) = Some (Arrived node)"
        unfolding same using load by simp
      then show ?thesis by (rule exI)
    qed
    show "\<exists>n. \<forall>caller m. solo (n + Suc m) s (InActualize caller it) =
              Option.bind (thread_step s (InActualize caller (it\<lparr>node_ptr_' := slot'\<rparr>)))
                (\<lambda>(s', t'). solo m s' t')
              \<and> Actualize_load s (it\<lparr>node_ptr_' := slot'\<rparr>) = Some (Arrived node)"
    proof (cases cur)
      case None
      with body get it have "slot' = slot" "Actualize_load s it = Some (Arrived node)"
        by (auto simp: Actualize_load_def)
      then show ?thesis by (rule stay)
    next
      case (Some a)
      with body get obtain nd where nd: "node_at s a = Some nd"
        by (auto split: option.splits)
      show ?thesis
      proof (cases "Index nd < k")
        case False
        with body get Some nd it have "slot' = slot" "Actualize_load s it = Some (Arrived node)"
          by (auto simp: Actualize_load_def)
        then show ?thesis by (rule stay)
      next
        case True
        with body get Some nd have "loop s (SiblingSlot a) k = Some (slot', node)"
          by simp
        from 1(1) [OF this, THEN spec, of "it\<lparr>node_ptr_' := SiblingSlot a\<rparr>"] it
        obtain n where n: "\<forall>caller m.
              solo (n + Suc m) s (InActualize caller (it\<lparr>node_ptr_' := SiblingSlot a\<rparr>)) =
              Option.bind (thread_step s (InActualize caller (it\<lparr>node_ptr_' := slot'\<rparr>)))
                (\<lambda>(s', t'). solo m s' t')
              \<and> Actualize_load s (it\<lparr>node_ptr_' := slot'\<rparr>) = Some (Arrived node)"
          by auto
        from True get Some nd it
        have load: "Actualize_load s it = Some (Onward (SiblingSlot a))"
          by (auto simp: Actualize_load_def)
        have "\<forall>caller m. solo (Suc n + Suc m) s (InActualize caller it) =
              Option.bind (thread_step s (InActualize caller (it\<lparr>node_ptr_' := slot'\<rparr>)))
                (\<lambda>(s', t'). solo m s' t')
              \<and> Actualize_load s (it\<lparr>node_ptr_' := slot'\<rparr>) = Some (Arrived node)"
          using n load by (simp add: thread_step_def)
        then show ?thesis by (rule exI)
      qed
    qed
  qed
qed

lemma Actualize_via_walk:
  assumes act: "Actualize s it = Some (it1, node)"
  shows "\<exists>n. \<forall>caller m. solo (n + Suc m) s (InActualize caller it) =
           Option.bind (resume s caller it1 node) (\<lambda>(s', t'). solo m s' t')"
proof -
  from act obtain slot' where loop:
    "Actualize_loop s (node_ptr_' it) (current_idx_' it) = Some (slot', node)"
    by (auto simp: Actualize_def split: option.splits if_splits)
  from act loop have fin: "Actualize_finish s (it\<lparr>node_ptr_' := slot'\<rparr>) node = Some it1"
    by (auto simp: Actualize_def Actualize_finish_def split: option.splits if_splits)
  from Actualize_to_walk [OF loop, THEN spec, of it]
  obtain n where n: "\<forall>caller m. solo (n + Suc m) s (InActualize caller it) =
              Option.bind (thread_step s (InActualize caller (it\<lparr>node_ptr_' := slot'\<rparr>)))
                (\<lambda>(s', t'). solo m s' t')
              \<and> Actualize_load s (it\<lparr>node_ptr_' := slot'\<rparr>) = Some (Arrived node)"
    by auto
  then have load: "Actualize_load s (it\<lparr>node_ptr_' := slot'\<rparr>) = Some (Arrived node)"
    by simp
  from load fin have "thread_step s (InActualize caller (it\<lparr>node_ptr_' := slot'\<rparr>))
      = resume s caller it1 node" for caller
    by (simp add: thread_step_def)
  with n have "\<forall>caller m. solo (n + Suc m) s (InActualize caller it) =
           Option.bind (resume s caller it1 node) (\<lambda>(s', t'). solo m s' t')"
    by simp
  then show ?thesis by (rule exI)
qed

lemma solo_to_loop:
  assumes "solo n s (InActualize (Inserting new) it) = Some (sf, Idle itf)"
  shows "GetOrSpawnNode_loop s it new = Some (sf, itf, node_' itf)"
  using assms
proof (induction n arbitrary: s it rule: less_induct)
  case (less n)
  from walk_to_Actualize [OF less.prems] obtain it1 node m where
    act: "Actualize s it = Some (it1, node)" and m: "m < n"
    and rest: "Option.bind (resume s (Inserting new) it1 node) (\<lambda>(s', t'). solo m s' t')
                 = Some (sf, Idle itf)"
    by blast
  show ?case
  proof (cases "node_' it1")
    case (Some a)
    with rest obtain s' where del: "delete_Node s new = Some s'"
      and fin: "solo m s' (Idle it1) = Some (sf, Idle itf)"
      by (auto simp: resume_def split: bind_splits)
    from fin have "sf = s'" "itf = it1" by (simp_all add: solo_Idle)
    with act Some del show ?thesis
      by (subst GetOrSpawnNode_loop.simps) simp
  next
    case None
    with rest obtain s1 where set: "slot_set s (SiblingSlot new) node = Some s1"
      and cas: "solo m s1 (BeforeCAS it1 new node) = Some (sf, Idle itf)"
      by (auto simp: resume_def split: bind_splits)
    from cas obtain m1 where m1: "m = Suc m1" by (cases m) auto
    with cas obtain s2' t2 where step: "thread_step s1 (BeforeCAS it1 new node) = Some (s2', t2)"
      and after: "solo m1 s2' t2 = Some (sf, Idle itf)"
      by (auto split: bind_splits)
    from step obtain s2 ok where
      cx: "compare_exchange s1 (node_ptr_' it1) node new = Some (s2, ok)"
      by (auto simp: thread_step_def split: option.splits)
    show ?thesis
    proof (cases ok)
      case True
      with step cx have "s2' = s2" "t2 = InActualize Linked it1"
        by (simp_all add: thread_step_def)
      with after have "solo m1 s2 (InActualize Linked it1) = Some (sf, Idle itf)" by simp
      from walk_to_Actualize [OF this] obtain it2 node2 m2 where
        act2: "Actualize s2 it1 = Some (it2, node2)"
        and fin: "Option.bind (resume s2 Linked it2 node2) (\<lambda>(s', t'). solo m2 s' t')
                    = Some (sf, Idle itf)"
        by blast
      from fin have "sf = s2" "itf = it2"
        by (simp_all add: resume_def solo_Idle)
      with act None set cx True act2 show ?thesis
        by (subst GetOrSpawnNode_loop.simps) simp
    next
      case False
      with step cx obtain s3 where rel: "slot_set s2 (SiblingSlot new) None = Some s3"
        and "s2' = s3" "t2 = InActualize (Inserting new) it1"
        by (auto simp: thread_step_def)
      with after have again: "solo m1 s3 (InActualize (Inserting new) it1) = Some (sf, Idle itf)"
        by simp
      from m m1 have "m1 < n" by simp
      from less.IH [OF this again]
      have "GetOrSpawnNode_loop s3 it1 new = Some (sf, itf, node_' itf)" .
      with act None set cx False rel show ?thesis
        by (subst GetOrSpawnNode_loop.simps) simp
    qed
  qed
qed

lemma loop_to_solo:
  assumes "GetOrSpawnNode_loop s it new = Some y"
  shows "\<exists>n. solo n s (InActualize (Inserting new) it) = Some (fst y, Idle (fst (snd y)))
           \<and> snd (snd y) = node_' (fst (snd y))"
  using assms
proof (induction s it new y rule: GetOrSpawnNode_loop.raw_induct [rotated, consumes 1])
  case (1 loop s it new y)
  from 1(2) obtain it1 node where act: "Actualize s it = Some (it1, node)"
    by (auto split: bind_splits)
  from Actualize_via_walk [OF act] obtain n1 where
    n1: "\<And>caller m. solo (n1 + Suc m) s (InActualize caller it) =
           Option.bind (resume s caller it1 node) (\<lambda>(s', t'). solo m s' t')"
    by blast
  show ?case
  proof (cases "node_' it1")
    case (Some a)
    with 1(2) act obtain s' where del: "delete_Node s new = Some s'"
      and y: "y = (s', it1, node_' it1)"
      by (auto split: bind_splits)
    from n1 [where caller = "Inserting new" and m = 0] Some del
    have "solo (n1 + Suc 0) s (InActualize (Inserting new) it) = Some (s', Idle it1)"
      by (simp add: resume_def)
    with y show ?thesis by (intro exI [of _ "n1 + Suc 0"]) simp
  next
    case None
    with 1(2) act obtain s1 s2 ok where set: "slot_set s (SiblingSlot new) node = Some s1"
      and cx: "compare_exchange s1 (node_ptr_' it1) node new = Some (s2, ok)"
      by (auto split: bind_splits)
    have to_cas: "solo (n1 + Suc m) s (InActualize (Inserting new) it)
                    = solo m s1 (BeforeCAS it1 new node)" for m
      using n1 [where caller = "Inserting new" and m = m] None set by (simp add: resume_def)
    show ?thesis
    proof (cases ok)
      case True
      with 1(2) act None set cx obtain it2 node2 where
        act2: "Actualize s2 it1 = Some (it2, node2)" and y: "y = (s2, it2, node_' it2)"
        by (auto split: bind_splits)
      from Actualize_via_walk [OF act2] obtain n2 where
        n2: "\<And>caller m. solo (n2 + Suc m) s2 (InActualize caller it1) =
           Option.bind (resume s2 caller it2 node2) (\<lambda>(s', t'). solo m s' t')"
        by blast
      from cx True have "solo (Suc (n2 + Suc 0)) s1 (BeforeCAS it1 new node)
          = solo (n2 + Suc 0) s2 (InActualize Linked it1)"
        by (simp add: thread_step_def)
      also have "\<dots> = Some (s2, Idle it2)"
        using n2 [where caller = Linked and m = 0] by (simp add: resume_def)
      finally have "solo (n1 + Suc (Suc (n2 + Suc 0))) s (InActualize (Inserting new) it)
          = Some (s2, Idle it2)"
        using to_cas [of "Suc (n2 + Suc 0)"] by simp
      with y show ?thesis by (intro exI [of _ "n1 + Suc (Suc (n2 + Suc 0))"]) simp
    next
      case False
      with 1(2) act None set cx obtain s3 where rel: "slot_set s2 (SiblingSlot new) None = Some s3"
        and again: "loop s3 it1 new = Some y"
        by (auto split: bind_splits)
      from 1(1) [OF again] obtain n3 where
        n3: "solo n3 s3 (InActualize (Inserting new) it1) = Some (fst y, Idle (fst (snd y)))"
        and r: "snd (snd y) = node_' (fst (snd y))"
        by blast
      from cx False rel have "solo (Suc n3) s1 (BeforeCAS it1 new node)
          = solo n3 s3 (InActualize (Inserting new) it1)"
        by (simp add: thread_step_def)
      with n3 to_cas [of "Suc n3"]
      have "solo (n1 + Suc (Suc n3)) s (InActualize (Inserting new) it)
          = Some (fst y, Idle (fst (snd y)))"
        by simp
      with r show ?thesis by (intro exI [of _ "n1 + Suc (Suc n3)"]) simp
    qed
  qed
qed

lemma GetOrSpawnNode_solo:
  "GetOrSpawnNode s it = Some (sf, itf, r) \<longleftrightarrow>
     (\<exists>n s1 t. enter_GetOrSpawnNode s it = Some (s1, t)
        \<and> solo n s1 t = Some (sf, Idle itf) \<and> r = node_' itf)"
proof (cases "node_' it")
  case (Some a)
  then show ?thesis
    by (auto simp: GetOrSpawnNode_def enter_GetOrSpawnNode_def solo_Idle)
next
  case None
  show ?thesis
  proof (cases "GetEdgeAt (payload s) (current_idx_' it)")
    case no_edge: None
    with None show ?thesis
      by (simp add: GetOrSpawnNode_def enter_GetOrSpawnNode_def)
  next
    case (Some edge)
    obtain s1 new where alloc: "new_Node s edge (current_idx_' it) = (s1, new)"
      by (cases "new_Node s edge (current_idx_' it)")
    from None Some alloc have call: "GetOrSpawnNode s it = GetOrSpawnNode_loop s1 it new"
      and enter: "enter_GetOrSpawnNode s it = Some (s1, InActualize (Inserting new) it)"
      by (simp_all add: GetOrSpawnNode_def enter_GetOrSpawnNode_def)
    show ?thesis
    proof
      assume "GetOrSpawnNode s it = Some (sf, itf, r)"
      with call have "GetOrSpawnNode_loop s1 it new = Some (sf, itf, r)" by simp
      from loop_to_solo [OF this] enter
      show "\<exists>n s1 t. enter_GetOrSpawnNode s it = Some (s1, t)
              \<and> solo n s1 t = Some (sf, Idle itf) \<and> r = node_' itf"
        by auto
    next
      assume "\<exists>n s1 t. enter_GetOrSpawnNode s it = Some (s1, t)
                \<and> solo n s1 t = Some (sf, Idle itf) \<and> r = node_' itf"
      with enter obtain n where "solo n s1 (InActualize (Inserting new) it) = Some (sf, Idle itf)"
        and "r = node_' itf"
        by auto
      with solo_to_loop [of n s1 new it sf itf] call
      show "GetOrSpawnNode s it = Some (sf, itf, r)" by simp
    qed
  qed
qed

lemma Actualize_solo:
  "map_option fst (Actualize s it) = Some it' \<longleftrightarrow>
     (\<exists>n. solo n s (InActualize Leaving it) = Some (s, Idle it'))"
proof
  assume "map_option fst (Actualize s it) = Some it'"
  then obtain node where "Actualize s it = Some (it', node)" by auto
  from Actualize_via_walk [OF this] obtain n where
    "\<And>caller m. solo (n + Suc m) s (InActualize caller it) =
           Option.bind (resume s caller it' node) (\<lambda>(s', t'). solo m s' t')"
    by blast
  from this [where caller = Leaving and m = 0]
  have "solo (n + Suc 0) s (InActualize Leaving it) = Some (s, Idle it')"
    by (simp add: resume_def)
  then show "\<exists>n. solo n s (InActualize Leaving it) = Some (s, Idle it')" ..
next
  assume "\<exists>n. solo n s (InActualize Leaving it) = Some (s, Idle it')"
  then obtain n where "solo n s (InActualize Leaving it) = Some (s, Idle it')" ..
  from walk_to_Actualize [OF this] obtain it1 node m where
    act: "Actualize s it = Some (it1, node)"
    and fin: "Option.bind (resume s Leaving it1 node) (\<lambda>(s', t'). solo m s' t')
                = Some (s, Idle it')"
    by blast
  from fin have "it' = it1" by (simp add: resume_def solo_Idle)
  with act show "map_option fst (Actualize s it) = Some it'" by simp
qed

lemma Edge_Iterator_begin_solo:
  "Edge_Iterator_begin s = Some it \<longleftrightarrow> (\<exists>n. solo n s (enter_Edges s) = Some (s, Idle it))"
proof (cases "GetEdges (payload s)")
  case None
  then show ?thesis
    by (auto simp: Edge_Iterator_begin_def enter_Edges_def Let_def solo_Idle)
next
  case (Some es)
  then show ?thesis
    by (simp add: Edge_Iterator_begin_def enter_Edges_def Let_def Actualize_solo
        del: map_option_eq_Some)
qed

lemma Edge_Iterator_next_solo:
  "Edge_Iterator_next s it = Some it' \<longleftrightarrow>
     (\<exists>n t. enter_next it = Some t \<and> solo n s t = Some (s, Idle it'))"
proof (cases "current_idx_' it + 1 = total_count_' it")
  case True
  then show ?thesis
    by (auto simp: Edge_Iterator_next_def enter_next_def Let_def solo_Idle)
next
  case False
  show ?thesis
  proof (cases "edge_' it")
    case None
    with False show ?thesis
      by (simp add: Edge_Iterator_next_def enter_next_def Let_def)
  next
    case (Some k)
    with False show ?thesis
      by (simp add: Edge_Iterator_next_def enter_next_def Let_def Actualize_solo
          del: map_option_eq_Some)
  qed
qed

lemma interleave_append:
  "interleave sys (es1 @ es2) = Option.bind (interleave sys es1) (\<lambda>sys1. interleave sys1 es2)"
  by (induction es1 arbitrary: sys) (simp_all split: bind_splits)

lemma solo_steps:
  assumes "solo n s t = Some (s', Idle it')" and "i < length ts"
  shows "\<exists>es. interleave \<lparr>shared = s, threads = ts[i := t]\<rparr> es
                = Some \<lparr>shared = s', threads = ts[i := Idle it']\<rparr>"
  using assms(1)
proof (induction n arbitrary: s t)
  case 0
  then have "interleave \<lparr>shared = s, threads = ts[i := t]\<rparr> []
               = Some \<lparr>shared = s', threads = ts[i := Idle it']\<rparr>"
    by simp
  then show ?case ..
next
  case (Suc n)
  show ?case
  proof (cases "\<exists>it. t = Idle it")
    case True
    with Suc.prems have "interleave \<lparr>shared = s, threads = ts[i := t]\<rparr> []
               = Some \<lparr>shared = s', threads = ts[i := Idle it']\<rparr>"
      by auto
    then show ?thesis ..
  next
    case False
    with Suc.prems obtain s1 t1 where step: "thread_step s t = Some (s1, t1)"
      and rest: "solo n s1 t1 = Some (s', Idle it')"
      by (cases t) (auto split: bind_splits)
    from Suc.IH [OF rest] obtain es where
      es: "interleave \<lparr>shared = s1, threads = ts[i := t1]\<rparr> es
             = Some \<lparr>shared = s', threads = ts[i := Idle it']\<rparr>"
      by blast
    from step assms(2)
    have "do_event \<lparr>shared = s, threads = ts[i := t]\<rparr> (Step i)
            = Some \<lparr>shared = s1, threads = ts[i := t1]\<rparr>"
      by (simp add: do_event_def)
    with es have "interleave \<lparr>shared = s, threads = ts[i := t]\<rparr> (Step i # es)
               = Some \<lparr>shared = s', threads = ts[i := Idle it']\<rparr>"
      by simp
    then show ?thesis ..
  qed
qed

lemma do_call_interleave:
  assumes "do_call sys c = Some sys'"
  shows "\<exists>es. interleave (as_threads sys) es = Some (as_threads sys')"
proof (cases c)
  case CallEdges
  let ?s = "store sys" and ?its = "iterators sys"
  from CallEdges assms obtain it where start: "Edge_Iterator_begin ?s = Some it"
    and sys': "sys' = sys\<lparr>iterators := ?its @ [it]\<rparr>"
    by (auto simp: do_call_def)
  from start obtain n where "solo n ?s (enter_Edges ?s) = Some (?s, Idle it)"
    by (auto simp: Edge_Iterator_begin_solo)
  from solo_steps [OF this, of "length ?its" "map Idle ?its @ [enter_Edges ?s]"]
  obtain es where "interleave \<lparr>shared = ?s, threads = map Idle ?its @ [enter_Edges ?s]\<rparr> es
      = Some \<lparr>shared = ?s, threads = map Idle ?its @ [Idle it]\<rparr>"
    by (auto simp: list_update_append)
  then have "interleave (as_threads sys) (EnterEdges # es) = Some (as_threads sys')"
    by (simp add: as_threads_def do_event_def sys')
  then show ?thesis ..
next
  case (CallNext i)
  let ?s = "store sys" and ?its = "iterators sys"
  from CallNext assms obtain it where i: "i < length ?its"
    and nxt: "Edge_Iterator_next ?s (?its ! i) = Some it"
    and sys': "sys' = sys\<lparr>iterators := ?its[i := it]\<rparr>"
    by (auto simp: do_call_def split: if_splits)
  from nxt obtain n t where enter: "enter_next (?its ! i) = Some t"
    and run: "solo n ?s t = Some (?s, Idle it)"
    by (auto simp: Edge_Iterator_next_solo)
  from i have len: "i < length (map Idle ?its)" by simp
  from solo_steps [OF run len]
  obtain es where "interleave \<lparr>shared = ?s, threads = (map Idle ?its)[i := t]\<rparr> es
      = Some \<lparr>shared = ?s, threads = (map Idle ?its)[i := Idle it]\<rparr>"
    by blast
  with i enter have "interleave (as_threads sys) (EnterNext i # es) = Some (as_threads sys')"
    by (simp add: as_threads_def do_event_def sys' map_update)
  then show ?thesis ..
next
  case (CallGetOrSpawnNode i)
  let ?s = "store sys" and ?its = "iterators sys"
  from CallGetOrSpawnNode assms obtain s' it r where i: "i < length ?its"
    and call: "GetOrSpawnNode ?s (?its ! i) = Some (s', it, r)"
    and sys': "sys' = \<lparr>store = s', iterators = ?its[i := it]\<rparr>"
    by (auto simp: do_call_def split: if_splits)
  from call obtain n s1 t where enter: "enter_GetOrSpawnNode ?s (?its ! i) = Some (s1, t)"
    and run: "solo n s1 t = Some (s', Idle it)"
    by (auto simp: GetOrSpawnNode_solo)
  from i have len: "i < length (map Idle ?its)" by simp
  from solo_steps [OF run len]
  obtain es where "interleave \<lparr>shared = s1, threads = (map Idle ?its)[i := t]\<rparr> es
      = Some \<lparr>shared = s', threads = (map Idle ?its)[i := Idle it]\<rparr>"
    by blast
  with i enter
  have "interleave (as_threads sys) (EnterGetOrSpawnNode i # es) = Some (as_threads sys')"
    by (simp add: as_threads_def do_event_def sys' map_update)
  then show ?thesis ..
qed

lemma do_calls_interleave:
  assumes "do_calls sys cs = Some sys'"
  shows "\<exists>es. interleave (as_threads sys) es = Some (as_threads sys')"
  using assms
proof (induction cs arbitrary: sys)
  case Nil
  then have "interleave (as_threads sys) [] = Some (as_threads sys')" by simp
  then show ?case ..
next
  case (Cons c cs)
  from Cons.prems obtain sys1 where one: "do_call sys c = Some sys1"
    and rest: "do_calls sys1 cs = Some sys'"
    by (auto split: bind_splits)
  from do_call_interleave [OF one] obtain es1 where
    "interleave (as_threads sys) es1 = Some (as_threads sys1)" ..
  moreover from Cons.IH [OF rest] obtain es2 where
    "interleave (as_threads sys1) es2 = Some (as_threads sys')" ..
  ultimately have "interleave (as_threads sys) (es1 @ es2) = Some (as_threads sys')"
    by (simp add: interleave_append)
  then show ?case ..
qed

section \<open>Prepared nodes under interleaved calls\<close>






















section \<open>Visited-node iteration\<close>







lemma spec_premise_at_head:
  "no_visits_after_unvisited nds \<Longrightarrow> no_visits_after_unvisited_head nds"
  by (cases nds) (auto simp: no_visits_after_unvisited_def no_visits_after_unvisited_head_def)




lemmas visited_simps =
  VisitedNodes_def VisitedNode_Iterator_begin_def VisitedNode_Iterator_next_def
  VisitedNode_next_loop.simps VisitedNodes_from.simps VisitedNode_Iterator_neq_def
  VisitedNode_Iterator_end_def GetN_def GetNInFlight_def Node_ctor_def nodes_at_def
  child_list_def nodes_from.simps Let_def



text \<open>
  The premise is needed at the head only because of the constructor, which tests the
  head for \<^verbatim>\<open>n == 0\<close> alone and then calls \<^verbatim>\<open>operator++\<close>; the early exit is inside
  \<^verbatim>\<open>operator++\<close>, after the step to the sibling.  In a list that does not meet the
  premise, a head without visits or visits in flight followed by a node with visits,
  that node is yielded.
\<close>

lemma VisitedNodes_skips_head:
  "child_list skipped_head_store = Some [unvisited_head, visited_second]
   \<and> GetN unvisited_head = 0 \<and> GetNInFlight unvisited_head = 0
   \<and> VisitedNodes skipped_head_store = Some [1]
   \<and> nodes_at skipped_head_store [1] = Some [visited_second]"
  by (simp add: skipped_head_store_def unvisited_head_def visited_second_def three_edges_def
      visited_simps)

section \<open>Edge iteration over a payload without edges\<close>

lemma Actualize_no_children:
  assumes "child_' (payload s) = None" and "node_ptr_' it = ChildSlot"
  shows "Actualize s it = Some (it\<lparr>node_ptr_' := ChildSlot, node_' := None\<rparr>, None)"
  using assms
  by (simp add: Actualize_def Actualize_loop.simps slot_get_def)

lemma Edges_from_empty_array:
  assumes child: "child_' (payload s) = None"
    and left: "unat k + n = 65535"
  shows "Edges_from s \<lparr>edge_' = Some j, node_' = None, node_ptr_' = ChildSlot,
                         current_idx_' = k, total_count_' = 0\<rparr>
           = Some (map (\<lambda>i. (Some (j + i), None)) [0..<Suc n])"
  using left
proof (induction n arbitrary: k j)
  case 0
  then have "unat (k + 1) = 0"
    by (simp add: unat_word_ariths)
  then have last: "k + 1 = 0" by (simp add: unat_eq_0)
  have stop: "Edges_from s \<lparr>edge_' = None, node_' = None, node_ptr_' = ChildSlot,
                              current_idx_' = 0, total_count_' = 0\<rparr> = Some []"
    by (subst Edges_from.simps) (simp add: EdgeAndNode_eq_def Edge_Iterator_end_def)
  show ?case
    by (subst Edges_from.simps)
      (simp add: EdgeAndNode_eq_def Edge_Iterator_end_def Edge_Iterator_next_def last stop)
next
  case (Suc n)
  then have lt: "unat k < 65535" by simp
  then have suc: "unat (k + 1) = unat k + 1"
    by (simp add: unat_word_ariths)
  then have nz: "k + 1 \<noteq> 0" by (auto simp: unat_eq_0 [symmetric] simp del: unat_eq_0)
  from Suc.prems suc have "unat (k + 1) + n = 65535" by simp
  from Suc.IH [OF this, of "Suc j"]
  have rest: "Edges_from s \<lparr>edge_' = Some (Suc j), node_' = None, node_ptr_' = ChildSlot,
                              current_idx_' = k + 1, total_count_' = 0\<rparr>
                = Some (map (\<lambda>i. (Some (Suc j + i), None)) [0..<Suc n])" .
  have shift: "map (\<lambda>i. (Some (j + i), None :: addr option)) [0..<Suc (Suc n)]
                 = (Some j, None) # map (\<lambda>i. (Some (Suc j + i), None)) [0..<Suc n]"
    by (simp only: upt_conv_Cons [of 0 "Suc (Suc n)"] map_Suc_upt [symmetric]) simp
  show ?case
    unfolding shift
    by (subst Edges_from.simps)
      (simp add: EdgeAndNode_eq_def Edge_Iterator_end_def Edge_Iterator_next_def nz
        Actualize_no_children child rest)
qed

lemma HasChildren_no_edges:
  assumes "GetNumEdges p = 0"
  shows "\<not> HasChildren p"
  using assms by (simp add: HasChildren_def GetNumEdges_def)

lemma Edges_without_edge_array:
  assumes "GetEdges (payload s) = None"
  shows "\<exists>it. Edge_Iterator_begin s = Some it \<and> EdgeAndNode_eq it Edge_Iterator_end"
    and "Edges s = Some []"
proof -
  let ?it = "\<lparr>edge_' = None, node_' = None, node_ptr_' = ChildSlot,
              current_idx_' = 0, total_count_' = ucast (GetNumEdges (payload s))\<rparr>"
  from assms have start: "Edge_Iterator_begin s = Some ?it"
    by (simp add: Edge_Iterator_begin_def Let_def)
  have eq: "EdgeAndNode_eq ?it Edge_Iterator_end"
    by (simp add: EdgeAndNode_eq_def Edge_Iterator_end_def)
  from start eq show "\<exists>it. Edge_Iterator_begin s = Some it \<and> EdgeAndNode_eq it Edge_Iterator_end"
    by (intro exI conjI)
  from eq have "Edges_from s ?it = Some []"
    by (subst Edges_from.simps) simp
  with start show "Edges s = Some []"
    by (simp add: Edges_def)
qed

text \<open>
  Claim C8 at the payload that \<^verbatim>\<open>SetNNEval\<close> leaves for an evaluation without edges
  (a position with no legal moves, as \<^verbatim>\<open>CachingComputation::AddInput\<close> would prepare it).
  \<^verbatim>\<open>num_edges_\<close> is 0 and \<^verbatim>\<open>HasChildren()\<close> is false, as the claim says.  But the
  payload owns an edge array of length zero, whose pointer is not null: the begin
  iterator differs from the end iterator, the loop body runs, and the iteration only
  ends when the 16-bit index has wrapped around, after 65536 elements read from behind
  the array.  The claim holds for a payload without an edge array
  (\<open>Edges_without_edge_array\<close>, \<open>HasChildren_no_edges\<close>).
\<close>

theorem Edges_of_empty_edge_array:
  "SetNNEval (\<lambda>p. True) (LowNode_hash 7) no_moves = Inr evaluated_no_moves
   \<and> payload no_moves_store = evaluated_no_moves
   \<and> GetNumEdges evaluated_no_moves = 0
   \<and> HasChildren evaluated_no_moves = False
   \<and> Edge_Iterator_begin no_moves_store = Some no_moves_begin
   \<and> EdgeAndNode_eq no_moves_begin Edge_Iterator_end = False
   \<and> map_option length (Edges no_moves_store) = Some 65536
   \<and> map_option hd (Edges no_moves_store) = Some (Some 0, None)"
proof -
  have eval: "SetNNEval (\<lambda>p. True) (LowNode_hash 7) no_moves = Inr evaluated_no_moves"
    by (simp add: SetNNEval_def LowNode_hash_def no_moves_def evaluated_no_moves_def
        memcpy_edges_def)
  have child: "child_' (payload no_moves_store) = None"
    by (simp add: no_moves_store_def evaluated_no_moves_def LowNode_hash_def)
  have start: "Edge_Iterator_begin no_moves_store = Some no_moves_begin"
    by (simp add: Edge_Iterator_begin_def Let_def Actualize_no_children child no_moves_begin_def)
      (simp add: no_moves_store_def evaluated_no_moves_def LowNode_hash_def GetEdges_def
        GetNumEdges_def)
  define yielded :: "(nat option \<times> addr option) list"
    where "yielded = map (\<lambda>i. (Some (0 + i), None)) [0..<Suc 65535]"
  have "unat (0 :: 16 word) + 65535 = 65535" by simp
  from Edges_from_empty_array [OF child this, of 0]
  have "Edges_from no_moves_store no_moves_begin = Some yielded"
    by (simp only: no_moves_begin_def yielded_def)
  with start have all: "Edges no_moves_store = Some yielded"
    by (simp only: Edges_def bind.bind_lunit)
  have "length yielded = Suc 65535"
    by (simp only: yielded_def length_map length_upt minus_nat.diff_0)
  then have "length yielded = 65536" by simp
  with all have len: "map_option length (Edges no_moves_store) = Some 65536"
    by simp
  have "yielded = (Some (0 + 0), None) # map (\<lambda>i. (Some (0 + i), None)) [Suc 0..<Suc 65535]"
    by (simp only: yielded_def upt_conv_Cons [OF zero_less_Suc] list.map)
  then have "hd yielded = (Some 0, None)" by (simp only: list.sel add_0)
  with all have first: "map_option hd (Edges no_moves_store) = Some (Some 0, None)"
    by simp
  have "GetNumEdges evaluated_no_moves = 0" "HasChildren evaluated_no_moves = False"
    by (simp_all add: GetNumEdges_def HasChildren_def evaluated_no_moves_def LowNode_hash_def)
  moreover have "EdgeAndNode_eq no_moves_begin Edge_Iterator_end = False"
    by (simp add: EdgeAndNode_eq_def no_moves_begin_def Edge_Iterator_end_def)
  moreover have "payload no_moves_store = evaluated_no_moves"
    by (simp add: no_moves_store_def)
  ultimately show ?thesis using eval start len first by simp
qed

end
